theory Spec2Isabelle
  imports Main
begin

section \<open>Data model (types.ts as used by gameLogic.ts and App.tsx)\<close>

text \<open>
  A tile is the two-element array \<open>[a, b]\<close> of numbers; \<open>tile[0]\<close> is \<open>fst\<close>,
  \<open>tile[1]\<close> is \<open>snd\<close>. Pip values are JavaScript numbers that only ever hold
  integers here, so they are \<open>int\<close>.
\<close>

type_synonym Tile = "int \<times> int"

datatype Side = SLeft | SRight

text \<open>The object \<open>{ tile, side }\<close> returned by \<open>getValidMoves\<close>.\<close>

record Move =
  tile :: Tile
  side :: Side

text \<open>
  \<open>Player\<close>: the field \<open>id\<close> is called \<open>pid\<close> (\<open>id\<close> is the identity function
  of HOL); \<open>team\<close> stays a number, as \<open>handleRoundEnd\<close> takes it.
\<close>

record Player =
  pid :: int
  name :: string
  isBot :: bool
  hand :: "Tile list"
  team :: int

datatype Status = Idle | Playing | RoundOver

datatype Reason = Domino | Tranque

text \<open>The winner object \<open>{ team, reason, points }\<close>; its \<open>team\<close> field is \<open>wteam\<close>.\<close>

record Winner =
  wteam :: int
  reason :: Reason
  points :: int

record GameState =
  players :: "Player list"
  board :: "Tile list"
  boneyard :: "Tile list"
  leftEnd :: "int option"
  rightEnd :: "int option"
  currentPlayerIndex :: int
  status :: Status
  logs :: "string list"
  winner :: "Winner option"
  passHistory :: "int \<rightharpoonup> int list"

text \<open>
  What the source can throw: reading a property of \<open>undefined\<close> (a player that
  \<open>find\<close> or an index did not yield) and spreading \<open>undefined\<close> into an array.
\<close>

datatype error = TypeError

section \<open>gameLogic.ts\<close>

definition getTileSum :: "Tile \<Rightarrow> int" where
  "getTileSum t = fst t + snd t"

definition isDouble :: "Tile \<Rightarrow> bool" where
  "isDouble t \<longleftrightarrow> fst t = snd t"

definition areTilesEqual :: "Tile \<Rightarrow> Tile \<Rightarrow> bool" where
  "areTilesEqual t1 t2 \<longleftrightarrow>
     (fst t1 = fst t2 \<and> snd t1 = snd t2) \<or> (fst t1 = snd t2 \<and> snd t1 = fst t2)"

text \<open>
  \<open>getValidMoves\<close>: the body of the \<open>forEach\<close> is \<open>pushMoves\<close>, which pushes the
  left entry and then the right entry of one tile onto \<open>moves\<close>. The set
  \<open>uniqueTiles\<close> of the source is written to and never read, so it is left out.
\<close>

definition pushMoves :: "int \<Rightarrow> int \<Rightarrow> Move list \<Rightarrow> Tile \<Rightarrow> Move list" where
  "pushMoves l r moves t =
     (let moves1 = (if fst t = l \<or> snd t = l
                    then moves @ [\<lparr>tile = t, side = SLeft\<rparr>] else moves)
      in if fst t = r \<or> snd t = r
         then moves1 @ [\<lparr>tile = t, side = SRight\<rparr>] else moves1)"

definition getValidMoves :: "Tile list \<Rightarrow> int option \<Rightarrow> int option \<Rightarrow> Move list" where
  "getValidMoves h le re =
     (case le of
        None \<Rightarrow> map (\<lambda>t. \<lparr>tile = t, side = SLeft\<rparr>) h
      | Some l \<Rightarrow>
          (case re of
             None \<Rightarrow> map (\<lambda>t. \<lparr>tile = t, side = SLeft\<rparr>) h
           | Some r \<Rightarrow> foldl (pushMoves l r) [] h))"

text \<open>
  \<open>determineStarter\<close>, first loop: \<open>holderFrom\<close> is the inner \<open>for\<close> over the seats
  (\<open>some\<close> and \<open>find\<close> use the same predicate, so \<open>find\<close> decides both; an array is
  truthy, so the \<open>|| target\<close> alternative is never taken), \<open>scanDoubles\<close> the outer
  \<open>for\<close> that counts down to 0.
\<close>

fun holderFrom :: "int \<Rightarrow> Tile \<Rightarrow> Player list \<Rightarrow> (int \<times> Tile) option" where
  "holderFrom pIndex target [] = None"
| "holderFrom pIndex target (p # ps) =
     (case find (\<lambda>t. areTilesEqual t target) (hand p) of
        Some actualTile \<Rightarrow> Some (pIndex, actualTile)
      | None \<Rightarrow> holderFrom (pIndex + 1) target ps)"

fun scanDoubles :: "nat \<Rightarrow> Player list \<Rightarrow> (int \<times> Tile) option" where
  "scanDoubles 0 ps = holderFrom 0 (0, 0) ps"
| "scanDoubles (Suc i) ps =
     (case holderFrom 0 (int (Suc i), int (Suc i)) ps of
        Some found \<Rightarrow> Some found
      | None \<Rightarrow> scanDoubles i ps)"

text \<open>
  Second loop: the state \<open>(highestSum, starterIndex, startTile)\<close> of the two nested
  \<open>forEach\<close>.
\<close>

definition bestStep :: "int \<Rightarrow> int \<times> int \<times> Tile \<Rightarrow> Tile \<Rightarrow> int \<times> int \<times> Tile" where
  "bestStep idx acc t =
     (let s = getTileSum t in if s > fst acc then (s, idx, t) else acc)"

fun scanHands :: "int \<Rightarrow> int \<times> int \<times> Tile \<Rightarrow> Player list \<Rightarrow> int \<times> int \<times> Tile" where
  "scanHands idx acc [] = acc"
| "scanHands idx acc (p # ps) = scanHands (idx + 1) (foldl (bestStep idx) acc (hand p)) ps"

definition determineStarter :: "Player list \<Rightarrow> Tile list \<Rightarrow> int \<times> Tile" where
  "determineStarter ps yard =
     (case scanDoubles 9 ps of
        Some found \<Rightarrow> found
      | None \<Rightarrow> snd (scanHands 0 (- 1, 0, (0, 0)) ps))"

text \<open>
  \<open>calculateBotMove\<close>. \<open>passHistory[nextPlayerId] || []\<close> is the stored list, or the
  empty one for a missing key. \<open>Array.prototype.sort\<close> is stable (ECMAScript 2019), as
  is the insertion sort \<open>sort_key\<close>; descending by score is ascending by negated score.
\<close>

definition newOpenEnd :: "int option \<Rightarrow> int option \<Rightarrow> Move \<Rightarrow> int" where
  "newOpenEnd le re m =
     (let currentEnd = (if side m = SLeft then le else re)
      in if Some (fst (tile m)) = currentEnd then snd (tile m) else fst (tile m))"

definition moveScore ::
  "int option \<Rightarrow> int option \<Rightarrow> (int \<rightharpoonup> int list) \<Rightarrow> int \<Rightarrow> Move \<Rightarrow> int" where
  "moveScore le re ph nextPlayerId m =
     (let pipSum = getTileSum (tile m);
          nextPlayerPasses = (case ph nextPlayerId of Some xs \<Rightarrow> xs | None \<Rightarrow> [])
      in pipSum
         + (if newOpenEnd le re m \<in> set nextPlayerPasses then 25 else 0)
         + (if isDouble (tile m) then 10 else 0))"

definition calculateBotMove ::
  "Tile list \<Rightarrow> int option \<Rightarrow> int option \<Rightarrow> (int \<rightharpoonup> int list) \<Rightarrow> int \<Rightarrow> Move option" where
  "calculateBotMove h le re ph nextPlayerId =
     (let validMoves = getValidMoves h le re
      in if length validMoves = 0 then None
         else if length validMoves = 1 then Some (validMoves ! 0)
         else
           (let scoredMoves = map (\<lambda>m. (m, moveScore le re ph nextPlayerId m)) validMoves;
                sorted = sort_key (\<lambda>sm. - snd sm) scoredMoves
            in Some (fst (sorted ! 0))))"

text \<open>\<open>calculateScores\<close>; \<open>handPips\<close> is the \<open>reduce\<close> over a hand.\<close>

definition handPips :: "Tile list \<Rightarrow> int" where
  "handPips h = foldl (\<lambda>acc t. acc + getTileSum t) 0 h"

definition scoreStep :: "int \<times> int \<Rightarrow> Player \<Rightarrow> int \<times> int" where
  "scoreStep acc p =
     (let pips = handPips (hand p)
      in if team p = 0 then (fst acc + pips, snd acc) else (fst acc, snd acc + pips))"

definition calculateScores :: "Player list \<Rightarrow> int \<times> int" where
  "calculateScores ps = foldl scoreStep (0, 0) ps"

text \<open>\<open>generateDeck\<close>: the two nested loops, \<open>i\<close> from 0 to 9 and \<open>j\<close> from \<open>i\<close> to 9.\<close>

definition generateDeck :: "Tile list" where
  "generateDeck = concat (map (\<lambda>i. map (\<lambda>j. (i, j)) [i..9]) [0..9])"

section \<open>App.tsx\<close>

text \<open>Decimal rendering of a number inside a template string.\<close>

definition digitChar :: "nat \<Rightarrow> char" where
  "digitChar d = ''0123456789'' ! d"

fun showNat :: "nat \<Rightarrow> string" where
  "showNat n =
     (if n < 10 then [digitChar n]
      else showNat (n div 10) @ [digitChar (n mod 10)])"

declare showNat.simps [simp del]

definition showInt :: "int \<Rightarrow> string" where
  "showInt i = (if i < 0 then ''-'' @ showNat (nat (- i)) else showNat (nat i))"

definition showTile :: "Tile \<Rightarrow> string" where
  "showTile t = ''['' @ showInt (fst t) @ ''|'' @ showInt (snd t) @ '']''"

text \<open>
  The remainder operator \<open>%\<close> of JavaScript truncates towards zero: the result has the
  sign of the dividend.
\<close>

definition jsRem :: "int \<Rightarrow> int \<Rightarrow> int" where
  "jsRem a b = sgn a * (\<bar>a\<bar> mod \<bar>b\<bar>)"

definition getNextPlayerIndex :: "int \<Rightarrow> int" where
  "getNextPlayerIndex current = jsRem (current - 1 + 4) 4"

text \<open>\<open>players[i]\<close>: \<open>undefined\<close> outside the array.\<close>

definition nthPlayer :: "Player list \<Rightarrow> int \<Rightarrow> Player option" where
  "nthPlayer ps i = (if 0 \<le> i \<and> i < int (length ps) then Some (ps ! nat i) else None)"

text \<open>
  \<open>handlePass\<close>: \<open>[...prev.passHistory[player.id], ...missed]\<close> throws when the key is
  missing (spreading \<open>undefined\<close>).
\<close>

definition missedEnds :: "GameState \<Rightarrow> int list" where
  "missedEnds prev =
     (case leftEnd prev of None \<Rightarrow> [] | Some l \<Rightarrow> [l]) @
     (case rightEnd prev of
        None \<Rightarrow> []
      | Some r \<Rightarrow> if rightEnd prev \<noteq> leftEnd prev then [r] else [])"

definition handlePass :: "Player \<Rightarrow> GameState \<Rightarrow> error + GameState" where
  "handlePass player prev =
     (case passHistory prev (pid player) of
        None \<Rightarrow> Inl TypeError
      | Some old \<Rightarrow>
          Inr (prev\<lparr>currentPlayerIndex := getNextPlayerIndex (currentPlayerIndex prev),
                     logs := logs prev @ [name player @ '' passes (Knock).''],
                     passHistory := (passHistory prev)(pid player \<mapsto> old @ missedEnds prev)\<rparr>))"

definition showReason :: "Reason \<Rightarrow> string" where
  "showReason r = (case r of Domino \<Rightarrow> ''domino'' | Tranque \<Rightarrow> ''tranque'')"

definition handleRoundEnd :: "Reason \<Rightarrow> int \<Rightarrow> GameState \<Rightarrow> GameState" where
  "handleRoundEnd rsn winningTeam prev =
     (let scores = calculateScores (players prev);
          pts = (if winningTeam = 0 then snd scores else fst scores)
      in prev\<lparr>status := RoundOver,
               winner := Some \<lparr>wteam = winningTeam, reason = rsn, points = pts\<rparr>,
               logs := logs prev @
                 [''Round Over! '' @ (if winningTeam = 0 then ''Your team'' else ''Opponents'')
                  @ '' won via '' @ showReason rsn @ ''. Points: '' @ showInt pts @ ''.'']\<rparr>)"

text \<open>
  \<open>applyMove\<close>: \<open>find(...)!\<close> yields \<open>undefined\<close> when no player has the id, and
  \<open>player.hand\<close> then throws. \<open>prev.leftEnd!\<close> is a compile-time assertion only, so
  \<open>newLeft\<close> and \<open>newRight\<close> may be null, and \<open>===\<close> against a pip is then false.
\<close>

definition showSide :: "Side \<Rightarrow> string" where
  "showSide sd = (case sd of SLeft \<Rightarrow> ''left'' | SRight \<Rightarrow> ''right'')"

definition otherPip :: "Tile \<Rightarrow> int option \<Rightarrow> int option" where
  "otherPip t e =
     (if Some (fst t) = e then Some (snd t)
      else if Some (snd t) = e then Some (fst t)
      else e)"

definition applyMove :: "int \<Rightarrow> Tile \<Rightarrow> Side \<Rightarrow> GameState \<Rightarrow> error + GameState" where
  "applyMove playerId t sd prev =
     (case find (\<lambda>p. pid p = playerId) (players prev) of
        None \<Rightarrow> Inl TypeError
      | Some player \<Rightarrow>
          (let newHand = filter (\<lambda>u. \<not> areTilesEqual u t) (hand player);
               newPlayers = map (\<lambda>p. if pid p = playerId then p\<lparr>hand := newHand\<rparr> else p)
                                (players prev);
               newLeft = (if sd = SLeft then otherPip t (leftEnd prev) else leftEnd prev);
               newRight = (if sd = SLeft then rightEnd prev else otherPip t (rightEnd prev));
               newBoard = (if sd = SLeft then t # board prev else board prev @ [t])
           in Inr (prev\<lparr>players := newPlayers,
                          board := newBoard,
                          leftEnd := newLeft,
                          rightEnd := newRight,
                          currentPlayerIndex := getNextPlayerIndex (currentPlayerIndex prev),
                          logs := logs prev @
                            [name player @ '' plays '' @ showTile t @ '' on the ''
                             @ showSide sd @ ''.'']\<rparr>)))"

definition executeBotTurn :: "Player \<Rightarrow> GameState \<Rightarrow> error + GameState" where
  "executeBotTurn botPlayer gs =
     (let nextPlayerId = getNextPlayerIndex (pid botPlayer)
      in case calculateBotMove (hand botPlayer) (leftEnd gs) (rightEnd gs) (passHistory gs)
                nextPlayerId of
           Some m \<Rightarrow> applyMove (pid botPlayer) (tile m) (side m) gs
         | None \<Rightarrow> handlePass botPlayer gs)"

text \<open>
  \<open>onUserTileClick\<close>: \<open>choice\<close> is the answer of \<open>window.confirm\<close> (OK for left). A bare
  \<open>return\<close> leaves the state as it is.
\<close>

definition onUserTileClick :: "Tile \<Rightarrow> bool \<Rightarrow> GameState \<Rightarrow> error + GameState" where
  "onUserTileClick t choice gs =
     (if currentPlayerIndex gs \<noteq> 0 \<or> status gs \<noteq> Playing then Inr gs
      else
        (let validMoves = getValidMoves [t] (leftEnd gs) (rightEnd gs)
         in if length validMoves = 0 then Inr gs
            else if length validMoves = 1 then applyMove 0 t (side (validMoves ! 0)) gs
            else if leftEnd gs = rightEnd gs then applyMove 0 t SLeft gs
            else applyMove 0 t (if choice then SLeft else SRight) gs))"

text \<open>
  The game loop (the \<open>useEffect\<close> on the turn pointer, the status and the board length)
  decides what happens next; the timers only delay it. \<open>tranqueStep\<close> is the body of its
  \<open>forEach\<close> on \<open>(minPips, winningTeam)\<close>.
\<close>

datatype Effect = NoEffect | RoundEnd Reason int | BotTurn Player | AutoPass Player | AwaitUser

definition tranqueStep :: "int \<times> int \<Rightarrow> Player \<Rightarrow> int \<times> int" where
  "tranqueStep acc p =
     (let pips = handPips (hand p)
      in if pips < fst acc then (pips, team p)
         else if pips = fst acc then (fst acc, team p)
         else acc)"

definition anyValidMove :: "GameState \<Rightarrow> bool" where
  "anyValidMove gs =
     list_ex (\<lambda>p. length (getValidMoves (hand p) (leftEnd gs) (rightEnd gs)) > 0) (players gs)"

definition gameLoop :: "GameState \<Rightarrow> error + Effect" where
  "gameLoop gs =
     (if status gs \<noteq> Playing then Inr NoEffect
      else case nthPlayer (players gs) (currentPlayerIndex gs) of
        None \<Rightarrow> Inl TypeError
      | Some currentPlayer \<Rightarrow>
          if length (hand currentPlayer) = 0 then Inr (RoundEnd Domino (team currentPlayer))
          else if \<not> anyValidMove gs \<and> length (board gs) > 0
          then Inr (RoundEnd Tranque (snd (foldl tranqueStep (1000, - 1) (players gs))))
          else if isBot currentPlayer then Inr (BotTurn currentPlayer)
          else if length (getValidMoves (hand currentPlayer) (leftEnd gs) (rightEnd gs)) = 0
                  \<and> length (board gs) > 0
          then Inr (AutoPass currentPlayer)
          else Inr AwaitUser)"

text \<open>
  One turn: the effect the loop chose, carried out. The user's input, when the loop
  waits for it, is the clicked tile and the \<open>confirm\<close> answer.
\<close>

definition runEffect :: "Effect \<Rightarrow> (Tile \<times> bool) option \<Rightarrow> GameState \<Rightarrow> error + GameState" where
  "runEffect e input gs =
     (case e of
        NoEffect \<Rightarrow> Inr gs
      | RoundEnd rsn w \<Rightarrow> Inr (handleRoundEnd rsn w gs)
      | BotTurn botPlayer \<Rightarrow> executeBotTurn botPlayer gs
      | AutoPass p \<Rightarrow> handlePass p gs
      | AwaitUser \<Rightarrow>
          (case input of None \<Rightarrow> Inr gs | Some (t, choice) \<Rightarrow> onUserTileClick t choice gs))"

definition turn :: "(Tile \<times> bool) option \<Rightarrow> GameState \<Rightarrow> error + GameState" where
  "turn input gs = (case gameLoop gs of Inl e \<Rightarrow> Inl e | Inr eff \<Rightarrow> runEffect eff input gs)"

text \<open>
  \<open>startGame\<close>, with the shuffled deck as its argument (the shuffle is the only random
  part). \<open>slice(a, b)\<close> is \<open>take (b - a) \<circ> drop a\<close>.
\<close>

definition initialGameState :: GameState where
  "initialGameState =
     \<lparr>players = [], board = [], boneyard = [], leftEnd = None, rightEnd = None,
      currentPlayerIndex = 0, status = Idle, logs = [], winner = None,
      passHistory = [0 \<mapsto> [], 1 \<mapsto> [], 2 \<mapsto> [], 3 \<mapsto> []]\<rparr>"

definition dealPlayers :: "Tile list \<Rightarrow> Player list" where
  "dealPlayers deck =
     [\<lparr>pid = 0, name = ''You'', isBot = False, hand = take 10 deck, team = 0\<rparr>,
      \<lparr>pid = 1, name = ''Bot 1 (Left)'', isBot = True, hand = take 10 (drop 10 deck), team = 1\<rparr>,
      \<lparr>pid = 2, name = ''Bot 2 (Partner)'', isBot = True, hand = take 10 (drop 20 deck), team = 0\<rparr>,
      \<lparr>pid = 3, name = ''Bot 3 (Right)'', isBot = True, hand = take 10 (drop 30 deck), team = 1\<rparr>]"

definition startGame :: "Tile list \<Rightarrow> error + GameState" where
  "startGame deck =
     (let ps = dealPlayers deck;
          yard = drop 40 deck;
          (starterIndex, startTile) = determineStarter ps yard
      in case nthPlayer ps starterIndex of
           None \<Rightarrow> Inl TypeError
         | Some starter \<Rightarrow>
             (let starter' = starter\<lparr>hand := filter (\<lambda>t. \<not> areTilesEqual t startTile) (hand starter)\<rparr>
              in Inr (initialGameState
                   \<lparr>status := Playing,
                    players := ps[nat starterIndex := starter'],
                    boneyard := yard,
                    board := [startTile],
                    leftEnd := Some (fst startTile),
                    rightEnd := Some (snd startTile),
                    currentPlayerIndex := jsRem (starterIndex - 1 + 4) 4,
                    logs := [''Game Started. '' @ name starter' @ '' leads with ''
                             @ showTile startTile @ ''.''],
                    passHistory := [0 \<mapsto> [], 1 \<mapsto> [], 2 \<mapsto> [], 3 \<mapsto> []]\<rparr>)))"

section \<open>Specification-level notions\<close>

text \<open>A tile fits an open end when one of its pips equals it.\<close>

definition fits :: "Tile \<Rightarrow> int \<Rightarrow> bool" where
  "fits t e \<longleftrightarrow> fst t = e \<or> snd t = e"

text \<open>The entries one tile contributes: left first, then right.\<close>

definition entries :: "int \<Rightarrow> int \<Rightarrow> Tile \<Rightarrow> Move list" where
  "entries l r t =
     (if fits t l then [\<lparr>tile = t, side = SLeft\<rparr>] else []) @
     (if fits t r then [\<lparr>tile = t, side = SRight\<rparr>] else [])"

text \<open>
  The chain invariant of the board: read from the left end, every tile has a pip equal
  to the pip left open by its left neighbour, and the last open pip is the right end.
\<close>

fun chain :: "int \<Rightarrow> Tile list \<Rightarrow> int \<Rightarrow> bool" where
  "chain l [] r \<longleftrightarrow> l = r"
| "chain l (t # ts) r \<longleftrightarrow>
     (fst t = l \<and> chain (snd t) ts r) \<or> (snd t = l \<and> chain (fst t) ts r)"

text \<open>
  Every tile held, with the seat that holds it, in the order the two nested \<open>forEach\<close>
  visit them: seat by seat, each hand front to back.
\<close>

fun seatTiles :: "int \<Rightarrow> Player list \<Rightarrow> (int \<times> Tile) list" where
  "seatTiles idx [] = []"
| "seatTiles idx (p # ps) = map (Pair idx) (hand p) @ seatTiles (idx + 1) ps"

text \<open>The tiles in the order they were played, the board of the start state first.\<close>

definition playOrder :: "GameState \<Rightarrow> (int \<times> Move) list \<Rightarrow> Tile list" where
  "playOrder s ms = board s @ map (\<lambda>sm. tile (snd sm)) ms"

text \<open>What a spectator sees of a round: status, board, and the winner record.\<close>

definition outcome :: "GameState \<Rightarrow> Status \<times> Tile list \<times> Winner option" where
  "outcome s = (status s, board s, winner s)"

text \<open>
  What every state of a round satisfies: the four seats carry the ids 0 to 3, both ends
  are set and the board is connected between them, every hand holds distinct tiles of
  the deck (first pip at most the second), and the turn pointer is a seat.
\<close>

definition wellFormed :: "GameState \<Rightarrow> bool" where
  "wellFormed s \<longleftrightarrow>
     map pid (players s) = [0, 1, 2, 3] \<and>
     (case leftEnd s of
        None \<Rightarrow> False
      | Some l \<Rightarrow> (case rightEnd s of None \<Rightarrow> False | Some r \<Rightarrow> chain l (board s) r)) \<and>
     list_all (\<lambda>p. distinct (hand p) \<and> list_all (\<lambda>t. fst t \<le> snd t) (hand p)) (players s) \<and>
     0 \<le> currentPlayerIndex s \<and> currentPlayerIndex s \<le> 3"

section \<open>Running the program\<close>

text \<open>
  A sequence of plays, each by a seat, applied in order; the first failure ends it.
\<close>

fun playMoves :: "(int \<times> Move) list \<Rightarrow> GameState \<Rightarrow> error + GameState" where
  "playMoves [] s = Inr s"
| "playMoves (sm # ms) s =
     (case applyMove (fst sm) (tile (snd sm)) (side (snd sm)) s of
        Inl e \<Rightarrow> Inl e
      | Inr s' \<Rightarrow> playMoves ms s')"

text \<open>Turns taken without user input, one after the other.\<close>

fun turns :: "nat \<Rightarrow> GameState \<Rightarrow> error + GameState" where
  "turns 0 s = Inr s"
| "turns (Suc n) s = (case turn None s of Inl e \<Rightarrow> Inl e | Inr s' \<Rightarrow> turns n s')"

text \<open>
  The states of the program: \<open>startGame\<close> on a shuffle of the deck, then turns. The
  user can only click a tile of the hand shown, the hand of seat 0.
\<close>

inductive reachable :: "GameState \<Rightarrow> bool" where
  start: "distinct deck \<Longrightarrow> set deck = set generateDeck \<Longrightarrow> startGame deck = Inr s \<Longrightarrow>
          reachable s"
| step: "reachable s \<Longrightarrow> turn input s = Inr s' \<Longrightarrow>
         (case input of
            None \<Rightarrow> True
          | Some click \<Rightarrow> list_ex (\<lambda>p. pid p = 0 \<and> fst click \<in> set (hand p)) (players s)) \<Longrightarrow>
         reachable s'"

text \<open>
  A user who always clicks the first legal tile of the hand (answering OK to the side
  question when that entry is a left one), and the game that results: \<open>autoPlay n\<close> is
  \<open>n\<close> turns with that user at seat 0.
\<close>

definition firstClick :: "GameState \<Rightarrow> (Tile \<times> bool) option" where
  "firstClick s =
     (case nthPlayer (players s) 0 of
        None \<Rightarrow> None
      | Some user \<Rightarrow>
          (case getValidMoves (hand user) (leftEnd s) (rightEnd s) of
             [] \<Rightarrow> None
           | m # _ \<Rightarrow> Some (tile m, side m = SLeft)))"

fun autoPlay :: "nat \<Rightarrow> GameState \<Rightarrow> error + GameState" where
  "autoPlay 0 s = Inr s"
| "autoPlay (Suc n) s =
     (case turn (firstClick s) s of Inl e \<Rightarrow> Inl e | Inr s' \<Rightarrow> autoPlay n s')"

text \<open>
  The plays of a round, in the order they were made. \<open>playedSince s st ps\<close>: the state
  \<open>s\<close> is reached in a round that \<open>startGame\<close> began with the start tile \<open>st\<close>, and
  \<open>ps\<close> lists the side and tile of every play since. A turn is a play of \<open>t\<close> on
  \<open>sd\<close> when its result is that of \<open>applyMove\<close> for some seat; otherwise it adds nothing
  to the list.
\<close>

inductive playedSince :: "GameState \<Rightarrow> Tile \<Rightarrow> (Side \<times> Tile) list \<Rightarrow> bool" where
  begun: "distinct deck \<Longrightarrow> set deck = set generateDeck \<Longrightarrow> startGame deck = Inr s \<Longrightarrow>
          playedSince s (snd (determineStarter (dealPlayers deck) (drop 40 deck))) []"
| play: "playedSince s st ps \<Longrightarrow> turn input s = Inr s' \<Longrightarrow>
         (case input of
            None \<Rightarrow> True
          | Some click \<Rightarrow> list_ex (\<lambda>p. pid p = 0 \<and> fst click \<in> set (hand p)) (players s)) \<Longrightarrow>
         applyMove seat t sd s = Inr s' \<Longrightarrow>
         playedSince s' st (ps @ [(sd, t)])"
| quiet: "playedSince s st ps \<Longrightarrow> turn input s = Inr s' \<Longrightarrow>
          (case input of
             None \<Rightarrow> True
           | Some click \<Rightarrow> list_ex (\<lambda>p. pid p = 0 \<and> fst click \<in> set (hand p)) (players s)) \<Longrightarrow>
          \<forall>seat t sd. applyMove seat t sd s \<noteq> Inr s' \<Longrightarrow>
          playedSince s' st ps"

section \<open>Example states\<close>

text \<open>The state \<open>startGame\<close> builds from the unshuffled deck.\<close>

definition openingState :: GameState where
  "openingState =
     \<lparr>players =
        [\<lparr>pid = 0, name = ''You'', isBot = False,
          hand = [(0, 0), (0, 1), (0, 2), (0, 3), (0, 4), (0, 5), (0, 6), (0, 7), (0, 8), (0, 9)],
          team = 0\<rparr>,
         \<lparr>pid = 1, name = ''Bot 1 (Left)'', isBot = True,
          hand = [(1, 1), (1, 2), (1, 3), (1, 4), (1, 5), (1, 6), (1, 7), (1, 8), (1, 9), (2, 2)],
          team = 1\<rparr>,
         \<lparr>pid = 2, name = ''Bot 2 (Partner)'', isBot = True,
          hand = [(2, 3), (2, 4), (2, 5), (2, 6), (2, 7), (2, 8), (2, 9), (3, 3), (3, 4), (3, 5)],
          team = 0\<rparr>,
         \<lparr>pid = 3, name = ''Bot 3 (Right)'', isBot = True,
          hand = [(3, 6), (3, 7), (3, 8), (3, 9), (4, 5), (4, 6), (4, 7), (4, 8), (4, 9)],
          team = 1\<rparr>],
      board = [(4, 4)],
      boneyard = [(5, 5), (5, 6), (5, 7), (5, 8), (5, 9), (6, 6), (6, 7), (6, 8), (6, 9),
                  (7, 7), (7, 8), (7, 9), (8, 8), (8, 9), (9, 9)],
      leftEnd = Some 4, rightEnd = Some 4,
      currentPlayerIndex = 2, status = Playing,
      logs = [''Game Started. Bot 3 (Right) leads with [4|4].''],
      winner = None,
      passHistory = [0 \<mapsto> [], 1 \<mapsto> [], 2 \<mapsto> [], 3 \<mapsto> []]\<rparr>"

text \<open>The opening state after the bot at seat 2 has played [3|4] on the left.\<close>

definition secondState :: GameState where
  "secondState =
     openingState
       \<lparr>players := (players openingState)
          [2 := (players openingState ! 2)
             \<lparr>hand := [(2, 3), (2, 4), (2, 5), (2, 6), (2, 7), (2, 8), (2, 9), (3, 3), (3, 5)]\<rparr>],
        board := [(3, 4), (4, 4)],
        leftEnd := Some 3,
        currentPlayerIndex := 1,
        logs := logs openingState @ [''Bot 2 (Partner) plays [3|4] on the left.'']\<rparr>"

text \<open>
  A state late in a round: the board is [9|9][9|5], the three bots have passed on 9
  and 5, and the user (seat 0) is to play and holds one tile.
\<close>

definition exampleState :: GameState where
  "exampleState =
     \<lparr>players =
        [\<lparr>pid = 0, name = ''You'', isBot = False, hand = [(5, 6)], team = 0\<rparr>,
         \<lparr>pid = 1, name = ''Bot 1 (Left)'', isBot = True, hand = [(3, 3), (0, 0)], team = 1\<rparr>,
         \<lparr>pid = 2, name = ''Bot 2 (Partner)'', isBot = True, hand = [(1, 3)], team = 0\<rparr>,
         \<lparr>pid = 3, name = ''Bot 3 (Right)'', isBot = True, hand = [(6, 1), (2, 2)], team = 1\<rparr>],
      board = [(9, 9), (9, 5)], boneyard = [(7, 7), (8, 8)],
      leftEnd = Some 9, rightEnd = Some 5,
      currentPlayerIndex = 0, status = Playing,
      logs = [''Game Started. Bot 1 (Left) leads with [9|9].'',
              ''You plays [9|5] on the right.'',
              ''Bot 3 (Right) passes (Knock).'',
              ''Bot 2 (Partner) passes (Knock).'',
              ''Bot 1 (Left) passes (Knock).''],
      winner = None,
      passHistory = [0 \<mapsto> [], 1 \<mapsto> [9, 5], 2 \<mapsto> [9, 5], 3 \<mapsto> [9, 5]]\<rparr>"

text \<open>The example state after the user has played the last tile, [5|6], on the right.\<close>

definition emptiedState :: GameState where
  "emptiedState =
     exampleState
       \<lparr>players := (players exampleState)[0 := (players exampleState ! 0)\<lparr>hand := []\<rparr>],
        board := [(9, 9), (9, 5), (5, 6)],
        rightEnd := Some 6,
        currentPlayerIndex := 3,
        logs := logs exampleState @ [''You plays [5|6] on the right.'']\<rparr>"

text \<open>
  Three bot turns later: seats 3, 2 and 1 have each played a tile, the turn is back at
  seat 0, and nobody holds a 9 or a 3.
\<close>

definition lockedState :: GameState where
  "lockedState =
     \<lparr>players =
        [\<lparr>pid = 0, name = ''You'', isBot = False, hand = [], team = 0\<rparr>,
         \<lparr>pid = 1, name = ''Bot 1 (Left)'', isBot = True, hand = [(0, 0)], team = 1\<rparr>,
         \<lparr>pid = 2, name = ''Bot 2 (Partner)'', isBot = True, hand = [], team = 0\<rparr>,
         \<lparr>pid = 3, name = ''Bot 3 (Right)'', isBot = True, hand = [(2, 2)], team = 1\<rparr>],
      board = [(9, 9), (9, 5), (5, 6), (6, 1), (1, 3), (3, 3)], boneyard = [(7, 7), (8, 8)],
      leftEnd = Some 9, rightEnd = Some 3,
      currentPlayerIndex = 0, status = Playing,
      logs = [''Game Started. Bot 1 (Left) leads with [9|9].'',
              ''You plays [9|5] on the right.'',
              ''Bot 3 (Right) passes (Knock).'',
              ''Bot 2 (Partner) passes (Knock).'',
              ''Bot 1 (Left) passes (Knock).'',
              ''You plays [5|6] on the right.'',
              ''Bot 3 (Right) plays [6|1] on the right.'',
              ''Bot 2 (Partner) plays [1|3] on the right.'',
              ''Bot 1 (Left) plays [3|3] on the right.''],
      winner = None,
      passHistory = [0 \<mapsto> [], 1 \<mapsto> [9, 5], 2 \<mapsto> [9, 5], 3 \<mapsto> [9, 5]]\<rparr>"

text \<open>A locked board with every hand still held: nobody has a 6 or a 0.\<close>

definition tranqueState :: GameState where
  "tranqueState =
     \<lparr>players =
        [\<lparr>pid = 0, name = ''You'', isBot = False, hand = [(1, 2), (3, 3)], team = 0\<rparr>,
         \<lparr>pid = 1, name = ''Bot 1 (Left)'', isBot = True, hand = [(1, 1)], team = 1\<rparr>,
         \<lparr>pid = 2, name = ''Bot 2 (Partner)'', isBot = True, hand = [(4, 5), (2, 3)], team = 0\<rparr>,
         \<lparr>pid = 3, name = ''Bot 3 (Right)'', isBot = True, hand = [(7, 8)], team = 1\<rparr>],
      board = [(6, 6), (6, 0)], boneyard = [(9, 9)],
      leftEnd = Some 6, rightEnd = Some 0,
      currentPlayerIndex = 3, status = Playing,
      logs = [''Game Started. Bot 1 (Left) leads with [6|6].'',
              ''You plays [6|0] on the right.''],
      winner = None,
      passHistory = [0 \<mapsto> [], 1 \<mapsto> [], 2 \<mapsto> [], 3 \<mapsto> []]\<rparr>"

text \<open>A state at the end of a round, with the hands still held.\<close>

definition scoringState :: GameState where
  "scoringState =
     initialGameState
       \<lparr>players :=
          [\<lparr>pid = 0, name = ''You'', isBot = False, hand = [], team = 0\<rparr>,
           \<lparr>pid = 1, name = ''Bot 1 (Left)'', isBot = True, hand = [(1, 2), (6, 6)], team = 1\<rparr>,
           \<lparr>pid = 2, name = ''Bot 2 (Partner)'', isBot = True, hand = [(0, 3)], team = 0\<rparr>,
           \<lparr>pid = 3, name = ''Bot 3 (Right)'', isBot = True, hand = [(4, 5)], team = 1\<rparr>],
        status := Playing\<rparr>"

text \<open>Four small hands without a double; three tiles share the highest sum, 7.\<close>

definition noDoubles :: "Player list" where
  "noDoubles =
     [\<lparr>pid = 0, name = ''You'', isBot = False, hand = [(1, 2), (3, 4)], team = 0\<rparr>,
      \<lparr>pid = 1, name = ''Bot 1 (Left)'', isBot = True, hand = [(2, 5), (0, 6)], team = 1\<rparr>,
      \<lparr>pid = 2, name = ''Bot 2 (Partner)'', isBot = True, hand = [(1, 6)], team = 0\<rparr>,
      \<lparr>pid = 3, name = ''Bot 3 (Right)'', isBot = True, hand = [(0, 1)], team = 1\<rparr>]"

section \<open>Legal moves\<close>

lemma pushMoves_entries: "pushMoves l r moves t = moves @ entries l r t"
  by (simp add: pushMoves_def entries_def fits_def Let_def)

lemma foldl_pushMoves:
  "foldl (pushMoves l r) acc h = acc @ concat (map (entries l r) h)"
  by (induction h arbitrary: acc) (simp_all add: pushMoves_entries)

lemma getValidMoves_ends:
  "getValidMoves h (Some l) (Some r) = concat (map (entries l r) h)"
  by (simp add: getValidMoves_def foldl_pushMoves)

lemma getValidMoves_first:
  "le = None \<or> re = None \<Longrightarrow>
   getValidMoves h le re = map (\<lambda>t. \<lparr>tile = t, side = SLeft\<rparr>) h"
  by (auto simp: getValidMoves_def split: option.splits)

lemma filter_left_entries:
  "filter (\<lambda>m. side m = SLeft) (concat (map (entries l r) h)) =
   map (\<lambda>t. \<lparr>tile = t, side = SLeft\<rparr>) (filter (\<lambda>t. fits t l) h)"
  by (induction h) (simp_all add: entries_def)

lemma filter_right_entries:
  "filter (\<lambda>m. side m = SRight) (concat (map (entries l r) h)) =
   map (\<lambda>t. \<lparr>tile = t, side = SRight\<rparr>) (filter (\<lambda>t. fits t r) h)"
  by (induction h) (simp_all add: entries_def)

lemma entries_empty: "entries l r t = [] \<longleftrightarrow> \<not> fits t l \<and> \<not> fits t r"
  by (simp add: entries_def)

lemma getValidMoves_empty:
  "getValidMoves h (Some l) (Some r) = [] \<longleftrightarrow> (\<forall>t \<in> set h. \<not> fits t l \<and> \<not> fits t r)"
  by (simp add: getValidMoves_ends entries_empty)

text \<open>
  C4. With an end unset, \<open>getValidMoves\<close> returns one entry per hand tile (all on the
  left). With both ends set, its left-side entries are exactly the hand tiles with a pip
  equal to \<open>leftEnd\<close>, its right-side entries exactly the hand tiles with a pip equal to
  \<open>rightEnd\<close>, each once and in hand order, so a tile fitting both ends contributes two
  adjacent entries, also when the two ends are equal; and the result is empty iff no
  hand tile has a pip equal to either end.
\<close>

theorem getValidMoves_spec:
  "(le = None \<or> re = None \<longrightarrow>
      getValidMoves h le re = map (\<lambda>t. \<lparr>tile = t, side = SLeft\<rparr>) h \<and>
      length (getValidMoves h le re) = length h) \<and>
   filter (\<lambda>m. side m = SLeft) (getValidMoves h (Some l) (Some r)) =
      map (\<lambda>t. \<lparr>tile = t, side = SLeft\<rparr>) (filter (\<lambda>t. fst t = l \<or> snd t = l) h) \<and>
   filter (\<lambda>m. side m = SRight) (getValidMoves h (Some l) (Some r)) =
      map (\<lambda>t. \<lparr>tile = t, side = SRight\<rparr>) (filter (\<lambda>t. fst t = r \<or> snd t = r) h) \<and>
   getValidMoves [t] (Some l) (Some r) =
      (if fst t = l \<or> snd t = l then [\<lparr>tile = t, side = SLeft\<rparr>] else []) @
      (if fst t = r \<or> snd t = r then [\<lparr>tile = t, side = SRight\<rparr>] else []) \<and>
   getValidMoves (h @ h') (Some l) (Some r) =
      getValidMoves h (Some l) (Some r) @ getValidMoves h' (Some l) (Some r) \<and>
   (getValidMoves h (Some l) (Some r) = [] \<longleftrightarrow>
      (\<forall>t \<in> set h. fst t \<noteq> l \<and> snd t \<noteq> l \<and> fst t \<noteq> r \<and> snd t \<noteq> r))"
proof -
  have first: "le = None \<or> re = None \<longrightarrow>
      getValidMoves h le re = map (\<lambda>t. \<lparr>tile = t, side = SLeft\<rparr>) h \<and>
      length (getValidMoves h le re) = length h"
    using getValidMoves_first [of le re h] by simp
  have lefts: "filter (\<lambda>m. side m = SLeft) (getValidMoves h (Some l) (Some r)) =
      map (\<lambda>t. \<lparr>tile = t, side = SLeft\<rparr>) (filter (\<lambda>t. fst t = l \<or> snd t = l) h)"
    using filter_left_entries [of l r h] by (simp add: getValidMoves_ends fits_def)
  have rights: "filter (\<lambda>m. side m = SRight) (getValidMoves h (Some l) (Some r)) =
      map (\<lambda>t. \<lparr>tile = t, side = SRight\<rparr>) (filter (\<lambda>t. fst t = r \<or> snd t = r) h)"
    using filter_right_entries [of l r h] by (simp add: getValidMoves_ends fits_def)
  have one: "getValidMoves [t] (Some l) (Some r) =
      (if fst t = l \<or> snd t = l then [\<lparr>tile = t, side = SLeft\<rparr>] else []) @
      (if fst t = r \<or> snd t = r then [\<lparr>tile = t, side = SRight\<rparr>] else [])"
    by (simp add: getValidMoves_ends entries_def fits_def)
  have app: "getValidMoves (h @ h') (Some l) (Some r) =
      getValidMoves h (Some l) (Some r) @ getValidMoves h' (Some l) (Some r)"
    by (simp add: getValidMoves_ends)
  have empty: "getValidMoves h (Some l) (Some r) = [] \<longleftrightarrow>
      (\<forall>t \<in> set h. fst t \<noteq> l \<and> snd t \<noteq> l \<and> fst t \<noteq> r \<and> snd t \<noteq> r)"
    using getValidMoves_empty [of h l r] by (auto simp: fits_def)
  from first lefts rights one app empty show ?thesis by blast
qed

theorem getValidMoves_spec_witness:
  "(None = (None :: int option) \<or> Some (9::int) = None) \<and>
   getValidMoves [(5, 5), (5, 9), (1, 2)] None (Some 9) =
     [\<lparr>tile = (5, 5), side = SLeft\<rparr>, \<lparr>tile = (5, 9), side = SLeft\<rparr>,
      \<lparr>tile = (1, 2), side = SLeft\<rparr>] \<and>
   filter (\<lambda>m. side m = SLeft) (getValidMoves [(5, 5), (5, 9), (1, 2)] (Some 5) (Some 5)) =
     [\<lparr>tile = (5, 5), side = SLeft\<rparr>, \<lparr>tile = (5, 9), side = SLeft\<rparr>] \<and>
   filter (\<lambda>m. side m = SRight) (getValidMoves [(5, 5), (5, 9), (1, 2)] (Some 5) (Some 5)) =
     [\<lparr>tile = (5, 5), side = SRight\<rparr>, \<lparr>tile = (5, 9), side = SRight\<rparr>] \<and>
   getValidMoves [(5, 5)] (Some 5) (Some 5) =
     [\<lparr>tile = (5, 5), side = SLeft\<rparr>, \<lparr>tile = (5, 5), side = SRight\<rparr>] \<and>
   getValidMoves [(5, 5), (5, 9), (1, 2)] (Some 7) (Some 8) = []"
  using getValidMoves_spec [of None "Some 9" "[(5, 5), (5, 9), (1, 2)]" 5 5 "(5, 5)" "[]"]
        getValidMoves_spec [of None None "[(5, 5), (5, 9), (1, 2)]" 7 8 "(5, 5)" "[]"]
  by simp

section \<open>Scoring\<close>

lemma foldl_add_sum:
  "foldl (\<lambda>acc t. acc + f t) a h = (a::int) + sum_list (map f h)"
  by (induction h arbitrary: a) simp_all

lemma handPips_sum: "handPips h = sum_list (map getTileSum h)"
  by (simp add: handPips_def foldl_add_sum)

lemma foldl_scoreStep:
  "foldl scoreStep acc ps =
     (fst acc + sum_list (map (\<lambda>p. handPips (hand p)) (filter (\<lambda>p. team p = 0) ps)),
      snd acc + sum_list (map (\<lambda>p. handPips (hand p)) (filter (\<lambda>p. team p \<noteq> 0) ps)))"
  by (induction ps arbitrary: acc) (simp_all add: scoreStep_def Let_def)

lemma calculateScores_sums:
  "calculateScores ps =
     (sum_list (map (\<lambda>p. handPips (hand p)) (filter (\<lambda>p. team p = 0) ps)),
      sum_list (map (\<lambda>p. handPips (hand p)) (filter (\<lambda>p. team p \<noteq> 0) ps)))"
  by (simp add: calculateScores_def foldl_scoreStep)

lemma filter_team1:
  "\<forall>p \<in> set ps. team p = 0 \<or> team p = 1 \<Longrightarrow>
   filter (\<lambda>p. team p \<noteq> 0) ps = filter (\<lambda>p. team p = 1) ps"
  by (rule filter_cong) auto

text \<open>
  C6. With every player on team 0 or team 1, \<open>calculateScores\<close> returns for each team
  the sum of \<open>getTileSum\<close> over the tiles in the hands of that team's players, and the
  winner record written by \<open>handleRoundEnd\<close> holds the other team's total as points:
  team 1's total when team 0 wins, team 0's total when team 1 wins.
\<close>

theorem calculateScores_spec:
  assumes "\<forall>p \<in> set (players s). team p = 0 \<or> team p = 1"
  shows "calculateScores (players s) =
           ((\<Sum>p\<leftarrow>filter (\<lambda>p. team p = 0) (players s). \<Sum>t\<leftarrow>hand p. getTileSum t),
            (\<Sum>p\<leftarrow>filter (\<lambda>p. team p = 1) (players s). \<Sum>t\<leftarrow>hand p. getTileSum t)) \<and>
         winner (handleRoundEnd rsn 0 s) =
           Some \<lparr>wteam = 0, reason = rsn,
                 points = (\<Sum>p\<leftarrow>filter (\<lambda>p. team p = 1) (players s). \<Sum>t\<leftarrow>hand p. getTileSum t)\<rparr> \<and>
         winner (handleRoundEnd rsn 1 s) =
           Some \<lparr>wteam = 1, reason = rsn,
                 points = (\<Sum>p\<leftarrow>filter (\<lambda>p. team p = 0) (players s). \<Sum>t\<leftarrow>hand p. getTileSum t)\<rparr> \<and>
         status (handleRoundEnd rsn w s) = RoundOver"
proof -
  have scores: "calculateScores (players s) =
           ((\<Sum>p\<leftarrow>filter (\<lambda>p. team p = 0) (players s). \<Sum>t\<leftarrow>hand p. getTileSum t),
            (\<Sum>p\<leftarrow>filter (\<lambda>p. team p = 1) (players s). \<Sum>t\<leftarrow>hand p. getTileSum t))"
    using filter_team1 [OF assms] by (simp add: calculateScores_sums handPips_sum)
  then show ?thesis
    by (simp add: handleRoundEnd_def Let_def)
qed

theorem calculateScores_spec_witness:
  "calculateScores (players scoringState) = (3, 24) \<and>
   winner (handleRoundEnd Domino 0 scoringState) =
     Some \<lparr>wteam = 0, reason = Domino, points = 24\<rparr> \<and>
   winner (handleRoundEnd Tranque 1 scoringState) =
     Some \<lparr>wteam = 1, reason = Tranque, points = 3\<rparr>"
proof -
  have teams: "\<forall>p \<in> set (players scoringState). team p = 0 \<or> team p = 1"
    by (simp add: scoringState_def)
  show ?thesis
    using calculateScores_spec [OF teams, of Domino 0] calculateScores_spec [OF teams, of Tranque 0]
    by (simp add: scoringState_def getTileSum_def)
qed

section \<open>Passing\<close>

lemma getNextPlayerIndex_mod:
  "0 \<le> c \<Longrightarrow> getNextPlayerIndex c = (c - 1 + 4) mod 4"
  by (simp add: getNextPlayerIndex_def jsRem_def sgn_if)

text \<open>
  C10. In a state whose pass history has an entry for the passing player and whose
  turn pointer is a seat index, \<open>handlePass\<close> returns a state with the same players (so
  the same hands), board, open ends, boneyard, status and winner; the turn pointer
  becomes \<open>(seat - 1 + 4) mod 4\<close>, the log gains exactly one entry, and the player's
  pass history gains the left end and then the right end when it differs from the
  left one. With both ends unset the pass history does not change.
\<close>

theorem handlePass_frame:
  assumes "passHistory prev (pid player) = Some old"
      and "0 \<le> currentPlayerIndex prev"
  shows "\<exists>s'. handlePass player prev = Inr s' \<and>
           players s' = players prev \<and> board s' = board prev \<and>
           leftEnd s' = leftEnd prev \<and> rightEnd s' = rightEnd prev \<and>
           boneyard s' = boneyard prev \<and> status s' = status prev \<and>
           winner s' = winner prev \<and>
           currentPlayerIndex s' = (currentPlayerIndex prev - 1 + 4) mod 4 \<and>
           logs s' = logs prev @ [name player @ '' passes (Knock).''] \<and>
           passHistory s' =
             (passHistory prev)(pid player \<mapsto> old @
               (case (leftEnd prev, rightEnd prev) of
                  (None, None) \<Rightarrow> []
                | (Some l, None) \<Rightarrow> [l]
                | (None, Some r) \<Rightarrow> [r]
                | (Some l, Some r) \<Rightarrow> if r = l then [l] else [l, r])) \<and>
           (leftEnd prev = None \<and> rightEnd prev = None \<longrightarrow>
              passHistory s' = passHistory prev)"
proof -
  have missed: "missedEnds prev =
      (case (leftEnd prev, rightEnd prev) of
         (None, None) \<Rightarrow> []
       | (Some l, None) \<Rightarrow> [l]
       | (None, Some r) \<Rightarrow> [r]
       | (Some l, Some r) \<Rightarrow> if r = l then [l] else [l, r])"
    by (auto simp: missedEnds_def split: option.splits)
  have same: "(passHistory prev)(pid player \<mapsto> old) = passHistory prev"
    using assms(1) by (simp add: map_upd_triv)
  show ?thesis
    using assms same
    by (simp add: handlePass_def missed getNextPlayerIndex_mod split: option.splits)
qed

theorem handlePass_frame_witness:
  "passHistory exampleState 3 = Some [9, 5] \<and> 0 \<le> currentPlayerIndex exampleState \<and>
   handlePass (players exampleState ! 3) exampleState =
     Inr (exampleState
            \<lparr>currentPlayerIndex := 3,
             logs := logs exampleState @ [''Bot 3 (Right) passes (Knock).''],
             passHistory := (passHistory exampleState)(3 \<mapsto> [9, 5, 9, 5])\<rparr>)"
proof -
  have key: "passHistory exampleState (pid (players exampleState ! 3)) = Some [9, 5]"
    by (simp add: exampleState_def)
  have idx: "0 \<le> currentPlayerIndex exampleState"
    by (simp add: exampleState_def)
  from handlePass_frame [OF key idx]
  obtain s' where s': "handlePass (players exampleState ! 3) exampleState = Inr s'" by blast
  then show ?thesis
    by (simp add: exampleState_def handlePass_def missedEnds_def getNextPlayerIndex_def
        jsRem_def)
qed

section \<open>Playing a tile\<close>

lemma chain_append:
  "chain l (xs @ ys) r \<longleftrightarrow> (\<exists>m. chain l xs m \<and> chain m ys r)"
  by (induction xs arbitrary: l) auto

lemma chain_snoc:
  "chain l ts e \<Longrightarrow> fst t = e \<or> snd t = e \<Longrightarrow>
   chain l (ts @ [t]) (if fst t = e then snd t else fst t)"
  by (auto simp: chain_append)

lemma chain_cons:
  "chain e ts r \<Longrightarrow> fst t = e \<or> snd t = e \<Longrightarrow>
   chain (if fst t = e then snd t else fst t) (t # ts) r"
  by auto

lemma find_by_pid:
  "distinct (map pid ps) \<Longrightarrow> p \<in> set ps \<Longrightarrow> find (\<lambda>q. pid q = pid p) ps = Some p"
  by (induction ps) (auto simp: image_iff)

lemma filter_other_tiles:
  assumes "distinct h" and "\<forall>u \<in> set h. areTilesEqual u t \<longrightarrow> u = t"
  shows "filter (\<lambda>u. \<not> areTilesEqual u t) h = remove1 t h"
proof -
  have "filter (\<lambda>u. \<not> areTilesEqual u t) h = filter (\<lambda>u. u \<noteq> t) h"
    using assms(2) by (intro filter_cong) (auto simp: areTilesEqual_def)
  also have "\<dots> = removeAll t h"
    by (induction h) auto
  also have "\<dots> = remove1 t h"
    using assms(1) by (simp add: distinct_remove1_removeAll)
  finally show ?thesis .
qed

lemma valid_move_fits:
  assumes "m \<in> set (getValidMoves h (Some l) (Some r))"
  shows "tile m \<in> set h \<and> (side m = SLeft \<longrightarrow> fits (tile m) l)
         \<and> (side m = SRight \<longrightarrow> fits (tile m) r)"
  using assms by (auto simp: getValidMoves_ends entries_def split: if_splits)

lemma otherPip_fits:
  "fits t e \<Longrightarrow> otherPip t (Some e) = Some (if fst t = e then snd t else fst t)"
  by (auto simp: otherPip_def fits_def)

text \<open>
  The effect of a legal play, from the well-formedness of the state it is made in: both
  ends set, distinct player ids, a hand without a second copy of the tile, a connected
  board.
\<close>

lemma legal_play_effect:
  assumes playing: "status s = Playing"
      and ends: "leftEnd s = Some l" "rightEnd s = Some r"
      and seats: "distinct (map pid (players s))"
      and actor: "p \<in> set (players s)" "pid p = currentPlayerIndex s"
      and legal: "m \<in> set (getValidMoves (hand p) (leftEnd s) (rightEnd s))"
      and tiles: "distinct (hand p)" "\<forall>u \<in> set (hand p). areTilesEqual u (tile m) \<longrightarrow> u = tile m"
      and linked: "chain l (board s) r"
  shows "\<exists>s'. applyMove (currentPlayerIndex s) (tile m) (side m) s = Inr s' \<and>
           players s' =
             map (\<lambda>q. if q = p then p\<lparr>hand := remove1 (tile m) (hand p)\<rparr> else q) (players s) \<and>
           tile m \<in> set (hand p) \<and>
           length (remove1 (tile m) (hand p)) + 1 = length (hand p) \<and>
           board s' = (case side m of SLeft \<Rightarrow> tile m # board s | SRight \<Rightarrow> board s @ [tile m]) \<and>
           length (board s') = length (board s) + 1 \<and>
           leftEnd s' =
             (case side m of
                SLeft \<Rightarrow> Some (if fst (tile m) = l then snd (tile m) else fst (tile m))
              | SRight \<Rightarrow> Some l) \<and>
           rightEnd s' =
             (case side m of
                SLeft \<Rightarrow> Some r
              | SRight \<Rightarrow> Some (if fst (tile m) = r then snd (tile m) else fst (tile m))) \<and>
           (fst (tile m) \<noteq> snd (tile m) \<longrightarrow>
              (case side m of SLeft \<Rightarrow> leftEnd s' \<noteq> Some l | SRight \<Rightarrow> rightEnd s' \<noteq> Some r)) \<and>
           boneyard s' = boneyard s \<and>
           status s' = Playing \<and>
           (\<exists>l' r'. leftEnd s' = Some l' \<and> rightEnd s' = Some r' \<and> chain l' (board s') r')"
proof -
  from legal ends have fit: "tile m \<in> set (hand p)"
      "side m = SLeft \<longrightarrow> fits (tile m) l" "side m = SRight \<longrightarrow> fits (tile m) r"
    using valid_move_fits [of m "hand p" l r] by simp_all
  have found: "find (\<lambda>q. pid q = currentPlayerIndex s) (players s) = Some p"
    using find_by_pid [OF seats actor(1)] actor(2) by simp
  have newHand: "filter (\<lambda>u. \<not> areTilesEqual u (tile m)) (hand p) = remove1 (tile m) (hand p)"
    using filter_other_tiles [OF tiles] .
  have who: "\<And>q. q \<in> set (players s) \<Longrightarrow> pid q = currentPlayerIndex s \<longleftrightarrow> q = p"
    using seats actor by (auto simp: distinct_map inj_on_def)
  have newPlayers:
    "map (\<lambda>q. if pid q = currentPlayerIndex s then q\<lparr>hand := remove1 (tile m) (hand p)\<rparr> else q)
       (players s) =
     map (\<lambda>q. if q = p then p\<lparr>hand := remove1 (tile m) (hand p)\<rparr> else q) (players s)"
    by (rule map_cong) (auto simp: who)
  have len: "length (remove1 (tile m) (hand p)) + 1 = length (hand p)"
  proof -
    from fit(1) have "0 < length (hand p)" by (cases "hand p") auto
    with fit(1) show ?thesis by (simp add: length_remove1)
  qed
  show ?thesis
  proof (cases "side m")
    case SLeft
    with fit have f: "fits (tile m) l" by simp
    have c: "chain (if fst (tile m) = l then snd (tile m) else fst (tile m)) (tile m # board s) r"
      using chain_cons [OF linked] f by (simp add: fits_def)
    show ?thesis
      using SLeft found newHand newPlayers len fit(1) f c ends playing
      by (auto simp: applyMove_def Let_def otherPip_fits fits_def)
  next
    case SRight
    with fit have f: "fits (tile m) r" by simp
    have c: "chain l (board s @ [tile m]) (if fst (tile m) = r then snd (tile m) else fst (tile m))"
      using chain_snoc [OF linked] f by (simp add: fits_def)
    show ?thesis
      using SRight found newHand newPlayers len fit(1) f c ends playing
      by (auto simp: applyMove_def Let_def otherPip_fits fits_def)
  qed
qed

section \<open>Illegal commands\<close>

text \<open>
  C9, as the code has it: \<open>onUserTileClick\<close> returns without touching the state when
  seat 0 is not the active seat, when the status is not playing, and when both ends
  are set and the clicked tile has no pip equal to either. Nothing reports the refusal,
  membership of the tile in the hand is not checked, and \<open>applyMove\<close> checks nothing.
\<close>

theorem onUserTileClick_ignores:
  assumes "currentPlayerIndex gs \<noteq> 0 \<or> status gs \<noteq> Playing \<or>
           (leftEnd gs = Some l \<and> rightEnd gs = Some r \<and>
            fst t \<noteq> l \<and> snd t \<noteq> l \<and> fst t \<noteq> r \<and> snd t \<noteq> r)"
  shows "onUserTileClick t choice gs = Inr gs"
  using assms
  by (auto simp: onUserTileClick_def Let_def getValidMoves_ends entries_def fits_def)

theorem onUserTileClick_ignores_witness:
  "leftEnd exampleState = Some 9 \<and> rightEnd exampleState = Some 5 \<and>
   onUserTileClick (7, 8) True exampleState = Inr exampleState \<and>
   currentPlayerIndex (exampleState\<lparr>currentPlayerIndex := 3\<rparr>) \<noteq> 0 \<and>
   onUserTileClick (5, 6) True (exampleState\<lparr>currentPlayerIndex := 3\<rparr>) =
     Inr (exampleState\<lparr>currentPlayerIndex := 3\<rparr>)"
proof -
  have a: "currentPlayerIndex exampleState \<noteq> 0 \<or> status exampleState \<noteq> Playing \<or>
           (leftEnd exampleState = Some 9 \<and> rightEnd exampleState = Some 5 \<and>
            fst (7::int, 8::int) \<noteq> 9 \<and> snd (7::int, 8::int) \<noteq> 9 \<and>
            fst (7::int, 8::int) \<noteq> 5 \<and> snd (7::int, 8::int) \<noteq> 5)"
    by (simp add: exampleState_def)
  have b: "currentPlayerIndex (exampleState\<lparr>currentPlayerIndex := 3\<rparr>) \<noteq> 0 \<or>
           status (exampleState\<lparr>currentPlayerIndex := 3\<rparr>) \<noteq> Playing \<or>
           (leftEnd (exampleState\<lparr>currentPlayerIndex := 3\<rparr>) = Some 9 \<and>
            rightEnd (exampleState\<lparr>currentPlayerIndex := 3\<rparr>) = Some 5 \<and>
            fst (5::int, 6::int) \<noteq> 9 \<and> snd (5::int, 6::int) \<noteq> 9 \<and>
            fst (5::int, 6::int) \<noteq> 5 \<and> snd (5::int, 6::int) \<noteq> 5)"
    by simp
  show ?thesis
    using onUserTileClick_ignores [OF a, of True] onUserTileClick_ignores [OF b, of True]
    by (simp add: exampleState_def)
qed

text \<open>
  The claim fails on \<open>applyMove\<close>: a tile that is not in the hand and matches neither
  end, played by a seat that is not the active one, is put on the board, the turn
  pointer moves and the log grows. It fails on \<open>onUserTileClick\<close> too: a matching tile
  that the user does not hold is played.
\<close>

theorem illegal_command_applied:
  "(7, 8) \<notin> set (hand (players exampleState ! 2)) \<and>
   currentPlayerIndex exampleState \<noteq> 2 \<and>
   applyMove 2 (7, 8) SLeft exampleState =
     Inr (exampleState
            \<lparr>board := [(7, 8), (9, 9), (9, 5)],
             currentPlayerIndex := 3,
             logs := logs exampleState @ [''Bot 2 (Partner) plays [7|8] on the left.'']\<rparr>) \<and>
   applyMove 2 (7, 8) SLeft exampleState \<noteq> Inr exampleState \<and>
   (5, 7) \<notin> set (hand (players exampleState ! 0)) \<and>
   onUserTileClick (5, 7) True exampleState =
     Inr (exampleState
            \<lparr>board := [(9, 9), (9, 5), (5, 7)],
             rightEnd := Some 7,
             currentPlayerIndex := 3,
             logs := logs exampleState @ [''You plays [5|7] on the right.'']\<rparr>) \<and>
   onUserTileClick (5, 7) True exampleState \<noteq> Inr exampleState"
proof -
  have a: "applyMove 2 (7, 8) SLeft exampleState =
     Inr (exampleState
            \<lparr>board := [(7, 8), (9, 9), (9, 5)],
             currentPlayerIndex := 3,
             logs := logs exampleState @ [''Bot 2 (Partner) plays [7|8] on the left.'']\<rparr>)"
    by (simp add: exampleState_def applyMove_def areTilesEqual_def otherPip_def
        getNextPlayerIndex_def jsRem_def showTile_def showInt_def showNat.simps digitChar_def showSide_def)
  have b: "onUserTileClick (5, 7) True exampleState =
     Inr (exampleState
            \<lparr>board := [(9, 9), (9, 5), (5, 7)],
             rightEnd := Some 7,
             currentPlayerIndex := 3,
             logs := logs exampleState @ [''You plays [5|7] on the right.'']\<rparr>)"
    by (simp add: exampleState_def onUserTileClick_def getValidMoves_def pushMoves_def
        applyMove_def areTilesEqual_def otherPip_def
        getNextPlayerIndex_def jsRem_def showTile_def showInt_def showNat.simps digitChar_def showSide_def)
  show ?thesis
    unfolding a b by (simp add: exampleState_def)
qed

section \<open>Order of the stored board\<close>


lemma applyMove_board:
  "applyMove seat t sd s = Inr s' \<Longrightarrow>
   board s' = (if sd = SLeft then t # board s else board s @ [t])"
  by (auto simp: applyMove_def Let_def split: option.splits)

lemma generateDeck_tiles:
  "generateDeck =
     [(0, 0), (0, 1), (0, 2), (0, 3), (0, 4), (0, 5), (0, 6), (0, 7), (0, 8), (0, 9),
      (1, 1), (1, 2), (1, 3), (1, 4), (1, 5), (1, 6), (1, 7), (1, 8), (1, 9), (2, 2),
      (2, 3), (2, 4), (2, 5), (2, 6), (2, 7), (2, 8), (2, 9), (3, 3), (3, 4), (3, 5),
      (3, 6), (3, 7), (3, 8), (3, 9), (4, 4), (4, 5), (4, 6), (4, 7), (4, 8), (4, 9),
      (5, 5), (5, 6), (5, 7), (5, 8), (5, 9), (6, 6), (6, 7), (6, 8), (6, 9), (7, 7),
      (7, 8), (7, 9), (8, 8), (8, 9), (9, 9)]"
  by code_simp

lemma dealPlayers_unshuffled:
  "dealPlayers generateDeck =
     [\<lparr>pid = 0, name = ''You'', isBot = False,
       hand = [(0, 0), (0, 1), (0, 2), (0, 3), (0, 4), (0, 5), (0, 6), (0, 7), (0, 8), (0, 9)],
       team = 0\<rparr>,
      \<lparr>pid = 1, name = ''Bot 1 (Left)'', isBot = True,
       hand = [(1, 1), (1, 2), (1, 3), (1, 4), (1, 5), (1, 6), (1, 7), (1, 8), (1, 9), (2, 2)],
       team = 1\<rparr>,
      \<lparr>pid = 2, name = ''Bot 2 (Partner)'', isBot = True,
       hand = [(2, 3), (2, 4), (2, 5), (2, 6), (2, 7), (2, 8), (2, 9), (3, 3), (3, 4), (3, 5)],
       team = 0\<rparr>,
      \<lparr>pid = 3, name = ''Bot 3 (Right)'', isBot = True,
       hand = [(3, 6), (3, 7), (3, 8), (3, 9), (4, 4), (4, 5), (4, 6), (4, 7), (4, 8), (4, 9)],
       team = 1\<rparr>]"
  unfolding generateDeck_tiles by (simp add: dealPlayers_def)

lemma determineStarter_unshuffled:
  "determineStarter (dealPlayers generateDeck) (drop 40 generateDeck) = (3, (4, 4))"
  unfolding dealPlayers_unshuffled by code_simp

lemma startGame_unshuffled: "startGame generateDeck = Inr openingState"
proof -
  have third: "nthPlayer (dealPlayers generateDeck) 3 = Some (dealPlayers generateDeck ! 3)"
    by (simp add: nthPlayer_def dealPlayers_def)
  have yard: "drop 40 generateDeck =
      [(5, 5), (5, 6), (5, 7), (5, 8), (5, 9), (6, 6), (6, 7), (6, 8), (6, 9),
       (7, 7), (7, 8), (7, 9), (8, 8), (8, 9), (9, 9)]"
    unfolding generateDeck_tiles by simp
  have "startGame generateDeck =
      Inr (initialGameState
             \<lparr>status := Playing,
              players := (dealPlayers generateDeck)
                [nat 3 := (dealPlayers generateDeck ! 3)
                   \<lparr>hand := filter (\<lambda>t. \<not> areTilesEqual t (4, 4))
                              (hand (dealPlayers generateDeck ! 3))\<rparr>],
              boneyard := drop 40 generateDeck,
              board := [(4, 4)],
              leftEnd := Some (fst (4::int, 4::int)),
              rightEnd := Some (snd (4::int, 4::int)),
              currentPlayerIndex := jsRem (3 - 1 + 4) 4,
              logs := [''Game Started. '' @
                       name ((dealPlayers generateDeck ! 3)
                         \<lparr>hand := filter (\<lambda>t. \<not> areTilesEqual t (4, 4))
                                    (hand (dealPlayers generateDeck ! 3))\<rparr>)
                       @ '' leads with '' @ showTile (4, 4) @ ''.''],
              passHistory := [0 \<mapsto> [], 1 \<mapsto> [], 2 \<mapsto> [], 3 \<mapsto> []]\<rparr>)"
    by (simp only: startGame_def Let_def determineStarter_unshuffled prod.case third
        option.case)
  also have "\<dots> = Inr openingState"
    unfolding yard dealPlayers_unshuffled
    by (simp add: areTilesEqual_def initialGameState_def openingState_def
        jsRem_def showTile_def showInt_def showNat.simps digitChar_def)
  finally show ?thesis .
qed

lemma opening_bot_move:
  "calculateBotMove (hand (players openingState ! 2)) (Some 4) (Some 4)
     (passHistory openingState) 1 = Some \<lparr>tile = (3, 4), side = SLeft\<rparr>"
  by (simp add: calculateBotMove_def openingState_def getValidMoves_def pushMoves_def
      moveScore_def newOpenEnd_def getTileSum_def isDouble_def)


text \<open>
  After any sequence of calls of \<open>applyMove\<close> the board is the tiles played on the
  left, latest first, then the board the sequence started from, then the tiles played
  on the right in the order played.
\<close>

lemma playMoves_board:
  assumes "playMoves ms s = Inr s'"
  shows "board s' =
           rev (map (\<lambda>sm. tile (snd sm)) (filter (\<lambda>sm. side (snd sm) = SLeft) ms)) @
           board s @
           map (\<lambda>sm. tile (snd sm)) (filter (\<lambda>sm. side (snd sm) = SRight) ms)"
  using assms
proof (induction ms arbitrary: s)
  case Nil
  then show ?case by simp
next
  case (Cons sm ms)
  from Cons.prems obtain s1 where
    one: "applyMove (fst sm) (tile (snd sm)) (side (snd sm)) s = Inr s1" and
    rest: "playMoves ms s1 = Inr s'"
    by (auto split: sum.splits)
  from Cons.IH [OF rest] applyMove_board [OF one] show ?case
    by (cases "side (snd sm)") simp_all
qed


lemma applyMove_pids:
  "applyMove seat t sd s = Inr s' \<Longrightarrow> map pid (players s') = map pid (players s)"
  by (auto simp: applyMove_def Let_def split: option.splits)

lemma applyMove_ok:
  "seat \<in> set (map pid (players s)) \<Longrightarrow> \<exists>s'. applyMove seat t sd s = Inr s'"
proof -
  assume "seat \<in> set (map pid (players s))"
  then have "find (\<lambda>p. pid p = seat) (players s) \<noteq> None"
    by (auto simp: find_None_iff)
  then show ?thesis
    by (auto simp: applyMove_def Let_def)
qed

lemma opening_loop: "gameLoop openingState = Inr (BotTurn (players openingState ! 2))"
  by (simp add: gameLoop_def openingState_def nthPlayer_def anyValidMove_def
      getValidMoves_def pushMoves_def)

lemma opening_turn:
  "turn None openingState = applyMove 2 (3, 4) SLeft openingState"
proof -
  have ends: "leftEnd openingState = Some 4" "rightEnd openingState = Some 4"
    "pid (players openingState ! 2) = 2"
    by (simp_all add: openingState_def)
  have nxt: "getNextPlayerIndex 2 = 1"
    by (simp add: getNextPlayerIndex_def jsRem_def)
  show ?thesis
    by (simp add: turn_def opening_loop runEffect_def executeBotTurn_def ends nxt
        opening_bot_move)
qed

lemma opening_board_after:
  "map_sum id board (applyMove 2 (3, 4) SLeft openingState) = Inr [(3, 4), (4, 4)]"
proof -
  have "2 \<in> set (map pid (players openingState))"
    by (simp add: openingState_def)
  from applyMove_ok [OF this] obtain s' where
    one: "applyMove 2 (3, 4) SLeft openingState = Inr s'" by blast
  from applyMove_board [OF one] have "board s' = [(3, 4), (4, 4)]"
    by (simp add: openingState_def)
  with one show ?thesis by simp
qed

text \<open>
  The claim fails in the state reached from the unshuffled deck: seat 3 leads with
  [4|4], then the bot at seat 2 plays [3|4] on the left. The stored board is
  [3|4][4|4]; the play order is [4|4][3|4].
\<close>

theorem board_not_play_order:
  "startGame generateDeck = Inr openingState \<and>
   turn None openingState =
     playMoves [(2, \<lparr>tile = (3, 4), side = SLeft\<rparr>)] openingState \<and>
   map_sum id board (playMoves [(2, \<lparr>tile = (3, 4), side = SLeft\<rparr>)] openingState) =
     Inr [(3, 4), (4, 4)] \<and>
   playOrder openingState [(2, \<lparr>tile = (3, 4), side = SLeft\<rparr>)] = [(4, 4), (3, 4)] \<and>
   map_sum id board (playMoves [(2, \<lparr>tile = (3, 4), side = SLeft\<rparr>)] openingState) \<noteq>
     Inr (playOrder openingState [(2, \<lparr>tile = (3, 4), side = SLeft\<rparr>)])"
proof -
  have run: "playMoves [(2, \<lparr>tile = (3, 4), side = SLeft\<rparr>)] openingState =
      applyMove 2 (3, 4) SLeft openingState"
    by (simp split: sum.splits)
  have p: "playOrder openingState [(2, \<lparr>tile = (3, 4), side = SLeft\<rparr>)] = [(4, 4), (3, 4)]"
    by (simp add: playOrder_def openingState_def)
  show ?thesis
    unfolding run p opening_board_after using startGame_unshuffled opening_turn by simp
qed

section \<open>End of the round\<close>

text \<open>
  What the loop does do: when the active player's hand is empty, it ends the round by
  domino for that player's team.
\<close>

lemma domino_for_active_player:
  "status s = Playing \<Longrightarrow> nthPlayer (players s) (currentPlayerIndex s) = Some cur \<Longrightarrow>
   hand cur = [] \<Longrightarrow> gameLoop s = Inr (RoundEnd Domino (team cur))"
  by (simp add: gameLoop_def)

lemma user_plays_last_tile:
  "onUserTileClick (5, 6) True exampleState = Inr emptiedState"
  by (simp add: emptiedState_def exampleState_def onUserTileClick_def getValidMoves_def
      pushMoves_def applyMove_def areTilesEqual_def otherPip_def getNextPlayerIndex_def
      jsRem_def showTile_def showInt_def showNat.simps digitChar_def showSide_def)

lemma user_turn:
  "turn (Some ((5, 6), True)) exampleState = Inr emptiedState"
proof -
  have "gameLoop exampleState = Inr AwaitUser"
    by (simp add: exampleState_def gameLoop_def nthPlayer_def anyValidMove_def
        getValidMoves_def pushMoves_def)
  then show ?thesis
    by (simp add: turn_def runEffect_def user_plays_last_tile)
qed

lemma emptied_loop:
  "gameLoop emptiedState = Inr (BotTurn (players emptiedState ! 3))"
  by (simp add: emptiedState_def exampleState_def gameLoop_def nthPlayer_def
      anyValidMove_def getValidMoves_def pushMoves_def)

lemma emptied_turns:
  "map_sum id outcome (turns 1 emptiedState) =
     Inr (Playing, [(9, 9), (9, 5), (5, 6), (6, 1)], None)"
  "map_sum id outcome (turns 3 emptiedState) =
     Inr (Playing, [(9, 9), (9, 5), (5, 6), (6, 1), (1, 3), (3, 3)], None)"
  "map_sum id outcome (turns 4 emptiedState) =
     Inr (RoundOver, [(9, 9), (9, 5), (5, 6), (6, 1), (1, 3), (3, 3)],
          Some \<lparr>wteam = 0, reason = Domino, points = 4\<rparr>)"
  by code_simp+

lemma emptied_to_locked: "turns 3 emptiedState = Inr lockedState"
  by (simp add: eval_nat_numeral turn_def gameLoop_def runEffect_def executeBotTurn_def
      calculateBotMove_def emptiedState_def exampleState_def lockedState_def nthPlayer_def
      anyValidMove_def getValidMoves_def pushMoves_def
      applyMove_def areTilesEqual_def otherPip_def getNextPlayerIndex_def
      jsRem_def showTile_def showInt_def showNat.simps digitChar_def showSide_def)

text \<open>
  C8. The round does not end when a hand is emptied: the loop looks at the hand of the
  seat whose turn it now is. In the example the user plays the last tile; the state is
  still playing, the loop gives the turn to the bot at seat 3, and seats 3, 2 and 1 each
  play a tile before the loop, back at seat 0, ends the round by domino for team 0. The
  points recorded are 4, not the 17 the other team held when the hand was emptied.
\<close>

theorem domino_not_immediate:
  "turn (Some ((5, 6), True)) exampleState = Inr emptiedState \<and>
   hand (players emptiedState ! 0) = [] \<and>
   status emptiedState = Playing \<and>
   gameLoop emptiedState = Inr (BotTurn (players emptiedState ! 3)) \<and>
   calculateScores (players emptiedState) = (4, 17) \<and>
   map_sum id outcome (turns 1 emptiedState) =
     Inr (Playing, [(9, 9), (9, 5), (5, 6), (6, 1)], None) \<and>
   map_sum id outcome (turns 3 emptiedState) =
     Inr (Playing, [(9, 9), (9, 5), (5, 6), (6, 1), (1, 3), (3, 3)], None) \<and>
   map_sum id outcome (turns 4 emptiedState) =
     Inr (RoundOver, [(9, 9), (9, 5), (5, 6), (6, 1), (1, 3), (3, 3)],
          Some \<lparr>wteam = 0, reason = Domino, points = 4\<rparr>)"
proof -
  have a: "hand (players emptiedState ! 0) = []" "status emptiedState = Playing"
    by (simp_all add: emptiedState_def exampleState_def)
  have b: "calculateScores (players emptiedState) = (4, 17)"
    by (simp add: emptiedState_def exampleState_def calculateScores_def scoreStep_def
        handPips_def getTileSum_def)
  show ?thesis
    using user_turn emptied_loop a b emptied_turns by simp
qed

section \<open>Locked board\<close>

lemma tranque_above:
  "\<forall>p \<in> set xs. c < handPips (hand p) \<Longrightarrow> c < m \<Longrightarrow>
   c < fst (foldl tranqueStep (m, w) xs)"
  by (induction xs arbitrary: m w) (auto simp: tranqueStep_def Let_def)

lemma tranque_keep:
  "\<forall>p \<in> set ys. m < handPips (hand p) \<Longrightarrow> foldl tranqueStep (m, w) ys = (m, w)"
  by (induction ys) (auto simp: tranqueStep_def Let_def)

lemma tranque_lowest:
  assumes k: "k < length ps"
      and low: "\<forall>j < length ps. j \<noteq> k \<longrightarrow> handPips (hand (ps ! k)) < handPips (hand (ps ! j))"
      and init: "handPips (hand (ps ! k)) < m"
  shows "foldl tranqueStep (m, w) ps = (handPips (hand (ps ! k)), team (ps ! k))"
proof -
  let ?c = "handPips (hand (ps ! k))"
  have split: "ps = take k ps @ ps ! k # drop (Suc k) ps"
    using k by (simp add: id_take_nth_drop)
  have before: "\<forall>p \<in> set (take k ps). ?c < handPips (hand p)"
  proof
    fix p assume "p \<in> set (take k ps)"
    then obtain j where "j < k" "p = ps ! j"
      using k by (auto simp: in_set_conv_nth)
    with low k show "?c < handPips (hand p)" by simp
  qed
  have after: "\<forall>p \<in> set (drop (Suc k) ps). ?c < handPips (hand p)"
  proof
    fix p assume "p \<in> set (drop (Suc k) ps)"
    then obtain i where i: "i < length ps - Suc k" "p = ps ! (Suc k + i)"
      by (auto simp: in_set_conv_nth)
    then have "Suc k + i < length ps" "Suc k + i \<noteq> k" by simp_all
    with low i(2) show "?c < handPips (hand p)" by blast
  qed
  obtain m' w' where pre: "foldl tranqueStep (m, w) (take k ps) = (m', w')"
    by (cases "foldl tranqueStep (m, w) (take k ps)")
  with tranque_above [OF before init, of w] have "?c < m'" by simp
  then have at: "tranqueStep (m', w') (ps ! k) = (?c, team (ps ! k))"
    by (simp add: tranqueStep_def Let_def)
  have "foldl tranqueStep (m, w) ps =
        foldl tranqueStep (tranqueStep (m', w') (ps ! k)) (drop (Suc k) ps)"
    by (subst split) (simp add: pre)
  also have "\<dots> = (?c, team (ps ! k))"
    unfolding at by (rule tranque_keep [OF after])
  finally show ?thesis .
qed

lemma anyValidMove_none:
  "\<forall>p \<in> set (players s). getValidMoves (hand p) (leftEnd s) (rightEnd s) = [] \<Longrightarrow>
   \<not> anyValidMove s"
  by (simp add: anyValidMove_def list_ex_iff)

text \<open>
  C2, as the code has it. In a playing state whose active player holds a tile, whose
  board is non-empty and in which no player has a legal move, the loop ends the round
  with reason tranque and \<open>handleRoundEnd\<close> records it; and when one player's pip total
  is strictly below every other player's (and below 1000, the loop's starting minimum,
  as any total of double-nine tiles is), the recorded winner is that player's team.
\<close>

theorem tranque_round_end:
  assumes playing: "status s = Playing"
      and active: "nthPlayer (players s) (currentPlayerIndex s) = Some cur" "hand cur \<noteq> []"
      and placed: "board s \<noteq> []"
      and locked: "\<forall>p \<in> set (players s). getValidMoves (hand p) (leftEnd s) (rightEnd s) = []"
  shows "\<exists>w. gameLoop s = Inr (RoundEnd Tranque w) \<and>
           turn input s = Inr (handleRoundEnd Tranque w s) \<and>
           status (handleRoundEnd Tranque w s) = RoundOver \<and>
           map_option reason (winner (handleRoundEnd Tranque w s)) = Some Tranque \<and>
           map_option wteam (winner (handleRoundEnd Tranque w s)) = Some w \<and>
           (\<forall>k < length (players s).
              (\<forall>j < length (players s). j \<noteq> k \<longrightarrow>
                 (\<Sum>t\<leftarrow>hand (players s ! k). getTileSum t) <
                 (\<Sum>t\<leftarrow>hand (players s ! j). getTileSum t)) \<and>
              (\<Sum>t\<leftarrow>hand (players s ! k). getTileSum t) < 1000 \<longrightarrow>
              w = team (players s ! k))"
proof -
  let ?w = "snd (foldl tranqueStep (1000, - 1) (players s))"
  have loop: "gameLoop s = Inr (RoundEnd Tranque ?w)"
    using playing active placed anyValidMove_none [OF locked]
    by (simp add: gameLoop_def)
  have t: "turn input s = Inr (handleRoundEnd Tranque ?w s)"
    by (simp add: turn_def loop runEffect_def)
  have rec: "status (handleRoundEnd Tranque ?w s) = RoundOver"
    "map_option reason (winner (handleRoundEnd Tranque ?w s)) = Some Tranque"
    "map_option wteam (winner (handleRoundEnd Tranque ?w s)) = Some ?w"
    by (simp_all add: handleRoundEnd_def Let_def)
  have win: "\<forall>k < length (players s).
              (\<forall>j < length (players s). j \<noteq> k \<longrightarrow>
                 (\<Sum>t\<leftarrow>hand (players s ! k). getTileSum t) <
                 (\<Sum>t\<leftarrow>hand (players s ! j). getTileSum t)) \<and>
              (\<Sum>t\<leftarrow>hand (players s ! k). getTileSum t) < 1000 \<longrightarrow>
              ?w = team (players s ! k)"
  proof (intro allI impI)
    fix k
    assume k: "k < length (players s)"
      and low: "(\<forall>j < length (players s). j \<noteq> k \<longrightarrow>
                 (\<Sum>t\<leftarrow>hand (players s ! k). getTileSum t) <
                 (\<Sum>t\<leftarrow>hand (players s ! j). getTileSum t)) \<and>
              (\<Sum>t\<leftarrow>hand (players s ! k). getTileSum t) < 1000"
    then have "foldl tranqueStep (1000, - 1) (players s) =
        (handPips (hand (players s ! k)), team (players s ! k))"
      by (intro tranque_lowest) (simp_all add: handPips_sum)
    then show "?w = team (players s ! k)" by simp
  qed
  from loop t rec win show ?thesis by blast
qed

theorem tranque_round_end_witness:
  "status tranqueState = Playing \<and> board tranqueState \<noteq> [] \<and>
   gameLoop tranqueState = Inr (RoundEnd Tranque 1) \<and>
   turn None tranqueState = Inr (handleRoundEnd Tranque 1 tranqueState) \<and>
   winner (handleRoundEnd Tranque 1 tranqueState) =
     Some \<lparr>wteam = 1, reason = Tranque, points = 23\<rparr>"
proof -
  let ?s = tranqueState
  have playing: "status ?s = Playing" by (simp add: tranqueState_def)
  have active: "nthPlayer (players ?s) (currentPlayerIndex ?s) = Some (players ?s ! 3)"
    "hand (players ?s ! 3) \<noteq> []"
    by (simp_all add: tranqueState_def nthPlayer_def)
  have placed: "board ?s \<noteq> []" by (simp add: tranqueState_def)
  have locked: "\<forall>p \<in> set (players ?s). getValidMoves (hand p) (leftEnd ?s) (rightEnd ?s) = []"
    by (simp add: tranqueState_def getValidMoves_def pushMoves_def)
  from tranque_round_end [OF playing active placed locked, of None]
  obtain w where
    loop: "gameLoop ?s = Inr (RoundEnd Tranque w)" and
    t: "turn None ?s = Inr (handleRoundEnd Tranque w ?s)" and
    low: "\<forall>k < length (players ?s).
              (\<forall>j < length (players ?s). j \<noteq> k \<longrightarrow>
                 (\<Sum>t\<leftarrow>hand (players ?s ! k). getTileSum t) <
                 (\<Sum>t\<leftarrow>hand (players ?s ! j). getTileSum t)) \<and>
              (\<Sum>t\<leftarrow>hand (players ?s ! k). getTileSum t) < 1000 \<longrightarrow>
              w = team (players ?s ! k)"
    by blast
  have len: "length (players ?s) = 4" by (simp add: tranqueState_def)
  have least: "\<forall>j < length (players ?s). j \<noteq> 1 \<longrightarrow>
                 (\<Sum>t\<leftarrow>hand (players ?s ! 1). getTileSum t) <
                 (\<Sum>t\<leftarrow>hand (players ?s ! j). getTileSum t)"
  proof (intro allI impI)
    fix j assume "j < length (players ?s)" "j \<noteq> 1"
    then have "j = 0 \<or> j = 2 \<or> j = 3" using len by auto
    then show "(\<Sum>t\<leftarrow>hand (players ?s ! 1). getTileSum t) <
                 (\<Sum>t\<leftarrow>hand (players ?s ! j). getTileSum t)"
      by (auto simp: tranqueState_def getTileSum_def)
  qed
  have small: "(\<Sum>t\<leftarrow>hand (players ?s ! 1). getTileSum t) < 1000"
    by (simp add: tranqueState_def getTileSum_def)
  from low least small len have "w = team (players ?s ! 1)" by simp
  then have w: "w = 1" by (simp add: tranqueState_def)
  have rec: "winner (handleRoundEnd Tranque 1 ?s) =
     Some \<lparr>wteam = 1, reason = Tranque, points = 23\<rparr>"
    by (simp add: handleRoundEnd_def tranqueState_def calculateScores_def scoreStep_def
        handPips_def getTileSum_def)
  from playing placed loop t w rec show ?thesis by simp
qed

text \<open>
  The claim fails when the active player's hand is empty: the loop tests for domino
  first. After the user's last tile and three bot turns the state is playing, the board
  is non-empty and no seat has a legal move, and the round ends with reason domino.
\<close>

theorem locked_but_domino:
  "turns 3 emptiedState = Inr lockedState \<and>
   status lockedState = Playing \<and>
   board lockedState \<noteq> [] \<and>
   list_all (\<lambda>p. getValidMoves (hand p) (leftEnd lockedState) (rightEnd lockedState) = [])
     (players lockedState) \<and>
   gameLoop lockedState = Inr (RoundEnd Domino 0) \<and>
   gameLoop lockedState \<noteq> Inr (RoundEnd Tranque 0) \<and>
   map_sum id (\<lambda>s. map_option reason (winner s)) (turn None lockedState) = Inr (Some Domino)"
proof -
  have a: "status lockedState = Playing" "board lockedState \<noteq> []"
    by (simp_all add: lockedState_def)
  have b: "list_all (\<lambda>p. getValidMoves (hand p) (leftEnd lockedState) (rightEnd lockedState) = [])
     (players lockedState)"
    by (simp add: lockedState_def getValidMoves_def pushMoves_def)
  have c: "gameLoop lockedState = Inr (RoundEnd Domino 0)"
    by (simp add: gameLoop_def lockedState_def nthPlayer_def)
  have d: "map_sum id (\<lambda>s. map_option reason (winner s)) (turn None lockedState) =
      Inr (Some Domino)"
    by (simp add: turn_def c runEffect_def handleRoundEnd_def Let_def)
  from emptied_to_locked a b c d show ?thesis by simp
qed

section \<open>Who starts\<close>

lemma find_double:
  "find (\<lambda>t. areTilesEqual t (d, d)) h = (if (d, d) \<in> set h then Some (d, d) else None)"
  by (induction h) (auto simp: areTilesEqual_def)

lemma holderFrom_none:
  "\<forall>p \<in> set ps. (d, d) \<notin> set (hand p) \<Longrightarrow> holderFrom idx (d, d) ps = None"
  by (induction ps arbitrary: idx) (simp_all add: find_double)

lemma holderFrom_first:
  "k < length ps \<Longrightarrow> (d, d) \<in> set (hand (ps ! k)) \<Longrightarrow>
   \<forall>q < k. (d, d) \<notin> set (hand (ps ! q)) \<Longrightarrow>
   holderFrom idx (d, d) ps = Some (idx + int k, (d, d))"
proof (induction ps arbitrary: idx k)
  case Nil
  then show ?case by simp
next
  case (Cons p ps)
  show ?case
  proof (cases k)
    case 0
    with Cons.prems show ?thesis by (simp add: find_double)
  next
    case (Suc k')
    with Cons.prems have "(d, d) \<notin> set (hand p)" by auto
    moreover from Cons.prems Suc have "holderFrom (idx + 1) (d, d) ps = Some (idx + 1 + int k', (d, d))"
      by (intro Cons.IH) auto
    ultimately show ?thesis using Suc by (simp add: find_double)
  qed
qed

lemma scanDoubles_none:
  "\<forall>j \<le> n. \<forall>p \<in> set ps. (int j, int j) \<notin> set (hand p) \<Longrightarrow> scanDoubles n ps = None"
proof (induction n)
  case 0
  then show ?case using holderFrom_none [of ps "int 0" 0] by simp
next
  case (Suc n)
  then have "holderFrom 0 (int (Suc n), int (Suc n)) ps = None"
    by (intro holderFrom_none) auto
  with Suc show ?case by simp
qed

lemma scanDoubles_highest:
  "d \<le> n \<Longrightarrow> \<forall>j. d < j \<and> j \<le> n \<longrightarrow> (\<forall>p \<in> set ps. (int j, int j) \<notin> set (hand p)) \<Longrightarrow>
   holderFrom 0 (int d, int d) ps = Some found \<Longrightarrow>
   scanDoubles n ps = Some found"
proof (induction n)
  case 0
  then show ?case by simp
next
  case (Suc n)
  show ?case
  proof (cases "d = Suc n")
    case True
    with Suc.prems show ?thesis by simp
  next
    case False
    with Suc.prems have "d < Suc n" "Suc n \<le> Suc n" by simp_all
    with Suc.prems(2) have "\<forall>p \<in> set ps. (int (Suc n), int (Suc n)) \<notin> set (hand p)"
      by blast
    then have "holderFrom 0 (int (Suc n), int (Suc n)) ps = None"
      by (rule holderFrom_none)
    moreover from False Suc have "scanDoubles n ps = Some found"
      by auto
    ultimately show ?thesis by simp
  qed
qed

lemma foldl_bestStep_seat:
  "foldl (\<lambda>acc it. bestStep (fst it) acc (snd it)) acc (map (Pair idx) h) =
   foldl (bestStep idx) acc h"
  by (induction h arbitrary: acc) simp_all

lemma scanHands_fold:
  "scanHands idx acc ps = foldl (\<lambda>acc it. bestStep (fst it) acc (snd it)) acc (seatTiles idx ps)"
  by (induction ps arbitrary: idx acc) (simp_all add: foldl_bestStep_seat)

lemma best_below:
  "\<forall>x \<in> set xs. getTileSum (snd x) < c \<Longrightarrow> fst acc < c \<Longrightarrow>
   fst (foldl (\<lambda>acc it. bestStep (fst it) acc (snd it)) acc xs) < c"
  by (induction xs arbitrary: acc) (auto simp: bestStep_def Let_def)

lemma best_keep:
  "\<forall>x \<in> set ys. getTileSum (snd x) \<le> fst acc \<Longrightarrow>
   foldl (\<lambda>acc it. bestStep (fst it) acc (snd it)) acc ys = acc"
  by (induction ys) (auto simp: bestStep_def Let_def)

lemma best_first_max:
  assumes n: "n < length xs"
      and top: "\<forall>m < length xs. getTileSum (snd (xs ! m)) \<le> getTileSum (snd (xs ! n))"
      and first: "\<forall>m < n. getTileSum (snd (xs ! m)) < getTileSum (snd (xs ! n))"
      and init: "fst acc < getTileSum (snd (xs ! n))"
  shows "foldl (\<lambda>acc it. bestStep (fst it) acc (snd it)) acc xs =
         (getTileSum (snd (xs ! n)), xs ! n)"
proof -
  let ?c = "getTileSum (snd (xs ! n))"
  let ?step = "\<lambda>acc it. bestStep (fst it) acc (snd it)"
  have split: "xs = take n xs @ xs ! n # drop (Suc n) xs"
    using n by (simp add: id_take_nth_drop)
  have before: "\<forall>x \<in> set (take n xs). getTileSum (snd x) < ?c"
  proof
    fix x assume "x \<in> set (take n xs)"
    then obtain m where "m < n" "x = xs ! m"
      using n by (auto simp: in_set_conv_nth)
    with first show "getTileSum (snd x) < ?c" by simp
  qed
  have after: "\<forall>x \<in> set (drop (Suc n) xs). getTileSum (snd x) \<le> ?c"
  proof
    fix x assume "x \<in> set (drop (Suc n) xs)"
    then obtain i where i: "i < length xs - Suc n" "x = xs ! (Suc n + i)"
      by (auto simp: in_set_conv_nth)
    then have "Suc n + i < length xs" by simp
    with top i(2) show "getTileSum (snd x) \<le> ?c" by blast
  qed
  have "fst (foldl ?step acc (take n xs)) < ?c"
    by (rule best_below [OF before init])
  then have at: "?step (foldl ?step acc (take n xs)) (xs ! n) = (?c, xs ! n)"
    by (simp add: bestStep_def Let_def)
  have "foldl ?step acc xs = foldl ?step (?step (foldl ?step acc (take n xs)) (xs ! n)) (drop (Suc n) xs)"
    by (subst split) simp
  also have "\<dots> = (?c, xs ! n)"
    unfolding at using after by (intro best_keep) simp
  finally show ?thesis .
qed

text \<open>
  C5. \<open>determineStarter\<close> returns seat \<open>k\<close> and the double [d|d] when \<open>d \<le> 9\<close>, seat
  \<open>k\<close> holds [d|d], no earlier seat holds it, and no hand holds a higher double up to
  [9|9]. When no hand holds a double from [0|0] to [9|9], it returns the seat and tile
  at the first position, in seat order and hand order, whose pip sum is the highest
  (every earlier tile has a strictly smaller sum), for tiles with non-negative sum.
\<close>

theorem determineStarter_spec:
  "(d \<le> 9 \<and> k < length ps \<and> (int d, int d) \<in> set (hand (ps ! k)) \<and>
    (\<forall>q < k. (int d, int d) \<notin> set (hand (ps ! q))) \<and>
    (\<forall>j. d < j \<and> j \<le> 9 \<longrightarrow> (\<forall>p \<in> set ps. (int j, int j) \<notin> set (hand p)))
    \<longrightarrow> determineStarter ps yard = (int k, (int d, int d))) \<and>
   ((\<forall>j \<le> 9. \<forall>p \<in> set ps. (int j, int j) \<notin> set (hand p)) \<and>
    n < length (seatTiles 0 ps) \<and>
    (\<forall>m < length (seatTiles 0 ps).
       getTileSum (snd (seatTiles 0 ps ! m)) \<le> getTileSum (snd (seatTiles 0 ps ! n))) \<and>
    (\<forall>m < n. getTileSum (snd (seatTiles 0 ps ! m)) < getTileSum (snd (seatTiles 0 ps ! n))) \<and>
    0 \<le> getTileSum (snd (seatTiles 0 ps ! n))
    \<longrightarrow> determineStarter ps yard = seatTiles 0 ps ! n)"
proof (intro conjI impI)
  assume a: "d \<le> 9 \<and> k < length ps \<and> (int d, int d) \<in> set (hand (ps ! k)) \<and>
    (\<forall>q < k. (int d, int d) \<notin> set (hand (ps ! q))) \<and>
    (\<forall>j. d < j \<and> j \<le> 9 \<longrightarrow> (\<forall>p \<in> set ps. (int j, int j) \<notin> set (hand p)))"
  then have "holderFrom 0 (int d, int d) ps = Some (0 + int k, (int d, int d))"
    by (intro holderFrom_first) auto
  with a have "scanDoubles 9 ps = Some (0 + int k, (int d, int d))"
    by (intro scanDoubles_highest [of d]) auto
  then show "determineStarter ps yard = (int k, (int d, int d))"
    by (simp add: determineStarter_def)
next
  assume b: "(\<forall>j \<le> 9. \<forall>p \<in> set ps. (int j, int j) \<notin> set (hand p)) \<and>
    n < length (seatTiles 0 ps) \<and>
    (\<forall>m < length (seatTiles 0 ps).
       getTileSum (snd (seatTiles 0 ps ! m)) \<le> getTileSum (snd (seatTiles 0 ps ! n))) \<and>
    (\<forall>m < n. getTileSum (snd (seatTiles 0 ps ! m)) < getTileSum (snd (seatTiles 0 ps ! n))) \<and>
    0 \<le> getTileSum (snd (seatTiles 0 ps ! n))"
  then have none: "scanDoubles 9 ps = None"
    by (intro scanDoubles_none) auto
  from b have "scanHands 0 (- 1, 0, (0, 0)) ps =
      (getTileSum (snd (seatTiles 0 ps ! n)), seatTiles 0 ps ! n)"
    unfolding scanHands_fold by (intro best_first_max) auto
  with none show "determineStarter ps yard = seatTiles 0 ps ! n"
    by (simp add: determineStarter_def)
qed

theorem determineStarter_spec_witness:
  "determineStarter (players exampleState) [] = (1, (3, 3)) \<and>
   seatTiles 0 noDoubles = [(0, (1, 2)), (0, (3, 4)), (1, (2, 5)), (1, (0, 6)), (2, (1, 6)), (3, (0, 1))] \<and>
   determineStarter noDoubles [] = (0, (3, 4))"
proof -
  let ?ps = "players exampleState"
  have ps: "?ps =
       [\<lparr>pid = 0, name = ''You'', isBot = False, hand = [(5, 6)], team = 0\<rparr>,
         \<lparr>pid = 1, name = ''Bot 1 (Left)'', isBot = True, hand = [(3, 3), (0, 0)], team = 1\<rparr>,
         \<lparr>pid = 2, name = ''Bot 2 (Partner)'', isBot = True, hand = [(1, 3)], team = 0\<rparr>,
         \<lparr>pid = 3, name = ''Bot 3 (Right)'', isBot = True, hand = [(6, 1), (2, 2)], team = 1\<rparr>]"
    by (simp add: exampleState_def)
  have a: "(3::nat) \<le> 9 \<and> 1 < length ?ps \<and> (int 3, int 3) \<in> set (hand (?ps ! 1)) \<and>
    (\<forall>q < 1. (int 3, int 3) \<notin> set (hand (?ps ! q))) \<and>
    (\<forall>j. 3 < j \<and> j \<le> 9 \<longrightarrow> (\<forall>p \<in> set ?ps. (int j, int j) \<notin> set (hand p)))"
    unfolding ps by auto
  have tiles: "seatTiles 0 noDoubles =
      [(0, (1, 2)), (0, (3, 4)), (1, (2, 5)), (1, (0, 6)), (2, (1, 6)), (3, (0, 1))]"
    by (simp add: noDoubles_def)
  have b: "(\<forall>j \<le> 9. \<forall>p \<in> set noDoubles. (int j, int j) \<notin> set (hand p)) \<and>
    1 < length (seatTiles 0 noDoubles) \<and>
    (\<forall>m < length (seatTiles 0 noDoubles).
       getTileSum (snd (seatTiles 0 noDoubles ! m)) \<le> getTileSum (snd (seatTiles 0 noDoubles ! 1))) \<and>
    (\<forall>m < 1. getTileSum (snd (seatTiles 0 noDoubles ! m)) < getTileSum (snd (seatTiles 0 noDoubles ! 1))) \<and>
    0 \<le> getTileSum (snd (seatTiles 0 noDoubles ! 1))"
  proof -
    have "\<forall>j \<le> 9. \<forall>p \<in> set noDoubles. (int j, int j) \<notin> set (hand p)"
      by (auto simp: noDoubles_def)
    then show ?thesis
      unfolding tiles by (simp add: getTileSum_def eval_nat_numeral All_less_Suc)
  qed
  from determineStarter_spec [of 3 1 ?ps "[]" 0] a
  have one: "determineStarter ?ps [] = (1, (3, 3))" by simp
  from determineStarter_spec [of 0 0 noDoubles "[]" 1] b
  have two: "determineStarter noDoubles [] = seatTiles 0 noDoubles ! 1" by blast
  from one two tiles show ?thesis by simp
qed

section \<open>The bot's choice\<close>

lemma hd_insort_key:
  "hd (insort_key g x ys) = (if ys = [] \<or> g x \<le> g (hd ys) then x else hd ys)"
  by (cases ys) simp_all

lemma sort_key_eq_Nil: "sort_key g xs = [] \<longleftrightarrow> xs = []"
  by (metis length_0_conv length_sort)

lemma sort_key_hd_first_min:
  "xs \<noteq> [] \<Longrightarrow>
   \<exists>i < length xs. hd (sort_key g xs) = xs ! i \<and>
     (\<forall>j < length xs. g (xs ! i) \<le> g (xs ! j)) \<and> (\<forall>j < i. g (xs ! i) < g (xs ! j))"
proof (induction xs)
  case Nil
  then show ?case by simp
next
  case (Cons x xs)
  show ?case
  proof (cases "xs = []")
    case True
    then show ?thesis by simp
  next
    case False
    from Cons.IH [OF False] obtain i where i: "i < length xs"
      "hd (sort_key g xs) = xs ! i"
      "\<forall>j < length xs. g (xs ! i) \<le> g (xs ! j)"
      "\<forall>j < i. g (xs ! i) < g (xs ! j)"
      by blast
    have ne: "sort_key g xs \<noteq> []" using False by (simp add: sort_key_eq_Nil)
    show ?thesis
    proof (cases "g x \<le> g (xs ! i)")
      case True
      have "hd (sort_key g (x # xs)) = (x # xs) ! 0"
        using True i(2) ne by (simp add: hd_insort_key)
      moreover have "\<forall>j < length (x # xs). g ((x # xs) ! 0) \<le> g ((x # xs) ! j)"
      proof (intro allI impI)
        fix j assume "j < length (x # xs)"
        then show "g ((x # xs) ! 0) \<le> g ((x # xs) ! j)"
          using True i(3) by (cases j) (auto intro: order_trans)
      qed
      ultimately show ?thesis by (intro exI [of _ 0]) simp
    next
      case False
      then have lt: "g (xs ! i) < g x" by simp
      have "hd (sort_key g (x # xs)) = (x # xs) ! Suc i"
        using False i(2) ne by (simp add: hd_insort_key)
      moreover have "\<forall>j < length (x # xs). g ((x # xs) ! Suc i) \<le> g ((x # xs) ! j)"
      proof (intro allI impI)
        fix j assume "j < length (x # xs)"
        then show "g ((x # xs) ! Suc i) \<le> g ((x # xs) ! j)"
          using lt i(3) by (cases j) auto
      qed
      moreover have "\<forall>j < Suc i. g ((x # xs) ! Suc i) < g ((x # xs) ! j)"
      proof (intro allI impI)
        fix j assume "j < Suc i"
        then show "g ((x # xs) ! Suc i) < g ((x # xs) ! j)"
          using lt i(4) by (cases j) auto
      qed
      ultimately show ?thesis using i(1) by (intro exI [of _ "Suc i"]) simp
    qed
  qed
qed

lemma applyMove_ends:
  "applyMove seat t sd s = Inr s' \<Longrightarrow>
   leftEnd s' = (if sd = SLeft then otherPip t (leftEnd s) else leftEnd s) \<and>
   rightEnd s' = (if sd = SLeft then rightEnd s else otherPip t (rightEnd s))"
  by (auto simp: applyMove_def Let_def split: option.splits)

text \<open>
  C3. \<open>calculateBotMove\<close> returns nothing when there is no legal move and the legal
  move itself when there is exactly one. With two or more it returns the legal move
  \<open>ms ! i\<close> of highest score whose predecessors in the \<open>getValidMoves\<close> order all
  score strictly less, the score being the pip sum, plus 25 when the exposed value is
  in the next player's pass history, plus 10 for a double. The exposed value is the
  tile's second pip when its first equals the end on the move's side, else its first
  pip; for a legal move on a board with both ends set it is the value \<open>applyMove\<close>
  stores as the new end on that side.
\<close>

theorem calculateBotMove_spec:
  fixes h :: "Tile list" and le re :: "int option" and ph :: "int \<rightharpoonup> int list" and nx :: int
  defines "ms \<equiv> getValidMoves h le re"
      and "passes \<equiv> (case ph nx of Some xs \<Rightarrow> xs | None \<Rightarrow> [])"
      and "exposed \<equiv> \<lambda>m. if Some (fst (tile m)) = (case side m of SLeft \<Rightarrow> le | SRight \<Rightarrow> re)
                            then snd (tile m) else fst (tile m)"
  defines "score \<equiv> \<lambda>m. fst (tile m) + snd (tile m)
                         + (if exposed m \<in> set passes then 25 else 0)
                         + (if fst (tile m) = snd (tile m) then 10 else 0)"
  shows "(ms = [] \<longrightarrow> calculateBotMove h le re ph nx = None) \<and>
         (\<forall>m. ms = [m] \<longrightarrow> calculateBotMove h le re ph nx = Some m) \<and>
         (2 \<le> length ms \<longrightarrow>
            (\<exists>i < length ms. calculateBotMove h le re ph nx = Some (ms ! i) \<and>
               (\<forall>j < length ms. score (ms ! j) \<le> score (ms ! i)) \<and>
               (\<forall>j < i. score (ms ! j) < score (ms ! i)))) \<and>
         (\<forall>m \<in> set ms. \<forall>seat s s'.
            leftEnd s = le \<and> rightEnd s = re \<and> le \<noteq> None \<and> re \<noteq> None \<and>
            applyMove seat (tile m) (side m) s = Inr s' \<longrightarrow>
            (case side m of SLeft \<Rightarrow> leftEnd s' | SRight \<Rightarrow> rightEnd s') = Some (exposed m))"
proof (intro conjI allI impI ballI)
  assume "ms = []"
  then show "calculateBotMove h le re ph nx = None"
    by (simp add: calculateBotMove_def ms_def)
next
  fix m assume "ms = [m]"
  then show "calculateBotMove h le re ph nx = Some m"
    by (simp add: calculateBotMove_def ms_def)
next
  assume many: "2 \<le> length ms"
  let ?scored = "map (\<lambda>m. (m, moveScore le re ph nx m)) ms"
  let ?g = "\<lambda>sm :: Move \<times> int. - snd sm"
  have sc: "\<And>m. moveScore le re ph nx m = score m"
    by (simp add: moveScore_def newOpenEnd_def getTileSum_def isDouble_def score_def
        exposed_def passes_def Let_def split: Side.splits)
  from many have ne: "?scored \<noteq> []" by auto
  from sort_key_hd_first_min [OF ne, of ?g] obtain i where i: "i < length ms"
    "hd (sort_key ?g ?scored) = ?scored ! i"
    "\<forall>j < length ?scored. ?g (?scored ! i) \<le> ?g (?scored ! j)"
    "\<forall>j < i. ?g (?scored ! i) < ?g (?scored ! j)"
    by auto
  have srt: "sort_key ?g ?scored \<noteq> []" using ne by (simp add: sort_key_eq_Nil)
  from many have len: "length ms \<noteq> 0" "length ms \<noteq> 1" by auto
  have "calculateBotMove h le re ph nx = Some (fst (hd (sort_key ?g ?scored)))"
    using len srt by (simp add: calculateBotMove_def ms_def [symmetric] Let_def hd_conv_nth)
  with i(1,2) have res: "calculateBotMove h le re ph nx = Some (ms ! i)" by simp
  have top: "\<forall>j < length ms. score (ms ! j) \<le> score (ms ! i)"
    using i(1,3) by (simp add: sc)
  have first: "\<forall>j < i. score (ms ! j) < score (ms ! i)"
    using i(1,4) by (simp add: sc)
  from i(1) res top first
  show "\<exists>i < length ms. calculateBotMove h le re ph nx = Some (ms ! i) \<and>
               (\<forall>j < length ms. score (ms ! j) \<le> score (ms ! i)) \<and>
               (\<forall>j < i. score (ms ! j) < score (ms ! i))"
    by blast
next
  fix m seat s s'
  assume m: "m \<in> set ms"
    and a: "leftEnd s = le \<and> rightEnd s = re \<and> le \<noteq> None \<and> re \<noteq> None \<and>
            applyMove seat (tile m) (side m) s = Inr s'"
  then obtain l r where lr: "le = Some l" "re = Some r" by auto
  from m lr have fit: "side m = SLeft \<longrightarrow> fits (tile m) l" "side m = SRight \<longrightarrow> fits (tile m) r"
    using valid_move_fits [of m h l r] by (simp_all add: ms_def)
  from a applyMove_ends [of seat "tile m" "side m" s s']
  have ends: "leftEnd s' = (if side m = SLeft then otherPip (tile m) le else le)"
    "rightEnd s' = (if side m = SLeft then re else otherPip (tile m) re)"
    by simp_all
  show "(case side m of SLeft \<Rightarrow> leftEnd s' | SRight \<Rightarrow> rightEnd s') = Some (exposed m)"
    using fit ends lr
    by (cases "side m") (simp_all add: otherPip_fits exposed_def)
qed

theorem calculateBotMove_spec_witness:
  "calculateBotMove [(1, 2)] (Some 9) (Some 5) (passHistory exampleState) 1 = None \<and>
   calculateBotMove [(5, 6)] (Some 9) (Some 5) (passHistory exampleState) 1 =
     Some \<lparr>tile = (5, 6), side = SRight\<rparr> \<and>
   getValidMoves [(5, 9), (5, 6), (9, 8)] (Some 9) (Some 5) =
     [\<lparr>tile = (5, 9), side = SLeft\<rparr>, \<lparr>tile = (5, 9), side = SRight\<rparr>,
      \<lparr>tile = (5, 6), side = SRight\<rparr>, \<lparr>tile = (9, 8), side = SLeft\<rparr>] \<and>
   calculateBotMove [(5, 9), (5, 6), (9, 8)] (Some 9) (Some 5) (passHistory exampleState) 1 =
     Some \<lparr>tile = (5, 9), side = SLeft\<rparr>"
proof -
  let ?ph = "passHistory exampleState"
  have ph: "?ph 1 = Some [9, 5]" by (simp add: exampleState_def)
  have none: "getValidMoves [(1, 2)] (Some 9) (Some 5) = []"
    by (simp add: getValidMoves_def pushMoves_def)
  have one: "getValidMoves [(5, 6)] (Some 9) (Some 5) = [\<lparr>tile = (5, 6), side = SRight\<rparr>]"
    by (simp add: getValidMoves_def pushMoves_def)
  have four: "getValidMoves [(5, 9), (5, 6), (9, 8)] (Some 9) (Some 5) =
     [\<lparr>tile = (5, 9), side = SLeft\<rparr>, \<lparr>tile = (5, 9), side = SRight\<rparr>,
      \<lparr>tile = (5, 6), side = SRight\<rparr>, \<lparr>tile = (9, 8), side = SLeft\<rparr>]"
    by (simp add: getValidMoves_def pushMoves_def)
  have a: "calculateBotMove [(1, 2)] (Some 9) (Some 5) ?ph 1 = None"
    using calculateBotMove_spec [of "[(1, 2)]" "Some 9" "Some 5" ?ph 1, THEN conjunct1] none
    by simp
  have b: "calculateBotMove [(5, 6)] (Some 9) (Some 5) ?ph 1 = Some \<lparr>tile = (5, 6), side = SRight\<rparr>"
    using calculateBotMove_spec [of "[(5, 6)]" "Some 9" "Some 5" ?ph 1,
        THEN conjunct2, THEN conjunct1] one
    by simp
  note best = calculateBotMove_spec [of "[(5, 9), (5, 6), (9, 8)]" "Some 9" "Some 5" ?ph 1,
      THEN conjunct2, THEN conjunct2, THEN conjunct1, unfolded four ph]
  have c: "calculateBotMove [(5, 9), (5, 6), (9, 8)] (Some 9) (Some 5) ?ph 1 =
     Some \<lparr>tile = (5, 9), side = SLeft\<rparr>"
    using best by (auto simp: Ex_less_Suc All_less_Suc)
  from a b c four show ?thesis by simp
qed

section \<open>Invariant of the reachable states\<close>

lemma generateDeck_ordered: "t \<in> set generateDeck \<Longrightarrow> fst t \<le> snd t"
  by (auto simp: generateDeck_def)

lemma wellFormed_ends:
  "wellFormed s \<Longrightarrow> \<exists>l r. leftEnd s = Some l \<and> rightEnd s = Some r \<and> chain l (board s) r"
  by (auto simp: wellFormed_def split: option.splits)

lemma nthPlayer_range:
  "nthPlayer ps i = Some p \<Longrightarrow> 0 \<le> i \<and> nat i < length ps \<and> p = ps ! nat i"
  by (auto simp: nthPlayer_def split: if_splits)

lemma dealt_hands:
  assumes "distinct deck" and "set deck \<subseteq> set generateDeck"
  shows "list_all (\<lambda>p. distinct (hand p) \<and> list_all (\<lambda>t. fst t \<le> snd t) (hand p))
           (dealPlayers deck)"
proof -
  have ord: "\<And>xs. set xs \<subseteq> set deck \<Longrightarrow> list_all (\<lambda>t. fst t \<le> snd t) xs"
    using assms(2) generateDeck_ordered by (auto simp: list_all_iff)
  have "set (take 10 deck) \<subseteq> set deck" "set (take 10 (drop 10 deck)) \<subseteq> set deck"
    "set (take 10 (drop 20 deck)) \<subseteq> set deck" "set (take 10 (drop 30 deck)) \<subseteq> set deck"
    by (auto dest: in_set_takeD in_set_dropD)
  then show ?thesis
    using assms(1) by (simp add: dealPlayers_def ord)
qed

lemma wellFormed_startGame:
  assumes "distinct deck" and "set deck = set generateDeck" and "startGame deck = Inr s"
  shows "wellFormed s"
proof -
  obtain i st where ds: "determineStarter (dealPlayers deck) (drop 40 deck) = (i, st)"
    by (cases "determineStarter (dealPlayers deck) (drop 40 deck)")
  let ?ps = "dealPlayers deck"
  from assms(3) ds obtain starter where st: "nthPlayer ?ps i = Some starter"
    by (auto simp: startGame_def Let_def split: option.splits)
  then have i: "0 \<le> i" "nat i < length ?ps" "starter = ?ps ! nat i"
    using nthPlayer_range by blast+
  let ?starter' = "starter\<lparr>hand := filter (\<lambda>t. \<not> areTilesEqual t st) (hand starter)\<rparr>"
  from assms(3) ds st have s:
    "players s = ?ps[nat i := ?starter']" "board s = [st]"
    "leftEnd s = Some (fst st)" "rightEnd s = Some (snd st)"
    "currentPlayerIndex s = jsRem (i - 1 + 4) 4"
    by (auto simp: startGame_def Let_def)
  have len: "length ?ps = 4" by (simp add: dealPlayers_def)
  with i have i3: "i \<le> 3" by simp
  have pids: "map pid (players s) = [0, 1, 2, 3]"
  proof -
    have "map pid (?ps[nat i := ?starter']) = (map pid ?ps)[nat i := pid ?starter']"
      by (simp add: map_update)
    also have "\<dots> = map pid ?ps"
      using i by (simp add: list_update_same_conv)
    finally show ?thesis by (simp add: s dealPlayers_def)
  qed
  have hands0: "list_all (\<lambda>p. distinct (hand p) \<and> list_all (\<lambda>t. fst t \<le> snd t) (hand p)) ?ps"
    using dealt_hands assms(1,2) by simp
  have hands: "list_all (\<lambda>p. distinct (hand p) \<and> list_all (\<lambda>t. fst t \<le> snd t) (hand p))
      (players s)"
    unfolding s list_all_iff
  proof
    fix p assume "p \<in> set (?ps[nat i := ?starter'])"
    then have "p = ?starter' \<or> p \<in> set ?ps"
      using set_update_subset_insert [of ?ps "nat i" ?starter'] by auto
    moreover have "starter \<in> set ?ps" using i by simp
    then have "distinct (hand starter)" "\<forall>t \<in> set (hand starter). fst t \<le> snd t"
      using hands0 by (simp_all add: list_all_iff)
    then have "distinct (hand ?starter') \<and> (\<forall>t \<in> set (hand ?starter'). fst t \<le> snd t)"
      by simp
    ultimately show "distinct (hand p) \<and> (\<forall>t \<in> set (hand p). fst t \<le> snd t)"
      using hands0 by (auto simp: list_all_iff)
  qed
  have cur: "0 \<le> currentPlayerIndex s" "currentPlayerIndex s \<le> 3"
    using i(1) i3 by (auto simp: s jsRem_def sgn_if)
  show ?thesis
    using pids hands cur by (simp add: wellFormed_def s)
qed

lemma getNextPlayerIndex_range:
  "0 \<le> c \<Longrightarrow> c \<le> 3 \<Longrightarrow> 0 \<le> getNextPlayerIndex c \<and> getNextPlayerIndex c \<le> 3"
  by (auto simp: getNextPlayerIndex_def jsRem_def sgn_if)

lemma wellFormed_frame:
  "wellFormed s \<Longrightarrow> players s' = players s \<Longrightarrow> board s' = board s \<Longrightarrow>
   leftEnd s' = leftEnd s \<Longrightarrow> rightEnd s' = rightEnd s \<Longrightarrow>
   0 \<le> currentPlayerIndex s' \<Longrightarrow> currentPlayerIndex s' \<le> 3 \<Longrightarrow> wellFormed s'"
  by (auto simp: wellFormed_def split: option.splits)

lemma applyMove_wellFormed:
  assumes wf: "wellFormed s"
      and ends: "leftEnd s = Some l" "rightEnd s = Some r"
      and fit: "sd = SLeft \<longrightarrow> fits t l" "sd = SRight \<longrightarrow> fits t r"
      and run: "applyMove seat t sd s = Inr s'"
  shows "wellFormed s'"
proof -
  from run obtain player where
    found: "find (\<lambda>p. pid p = seat) (players s) = Some player"
    by (auto simp: applyMove_def split: option.splits)
  then have member: "player \<in> set (players s)"
    by (auto simp: find_Some_iff)
  let ?newHand = "filter (\<lambda>u. \<not> areTilesEqual u t) (hand player)"
  from run found have s':
    "players s' = map (\<lambda>p. if pid p = seat then p\<lparr>hand := ?newHand\<rparr> else p) (players s)"
    "board s' = (if sd = SLeft then t # board s else board s @ [t])"
    "leftEnd s' = (if sd = SLeft then otherPip t (leftEnd s) else leftEnd s)"
    "rightEnd s' = (if sd = SLeft then rightEnd s else otherPip t (rightEnd s))"
    "currentPlayerIndex s' = getNextPlayerIndex (currentPlayerIndex s)"
    by (auto simp: applyMove_def Let_def)
  from wf ends have linked: "chain l (board s) r"
    by (simp add: wellFormed_def)
  have pids: "map pid (players s') = [0, 1, 2, 3]"
  proof -
    have "map pid (players s') = map pid (players s)"
      unfolding s' by (induction "players s") auto
    with wf show ?thesis by (simp add: wellFormed_def)
  qed
  have board: "case leftEnd s' of None \<Rightarrow> False
      | Some l' \<Rightarrow> (case rightEnd s' of None \<Rightarrow> False | Some r' \<Rightarrow> chain l' (board s') r')"
  proof (cases sd)
    case SLeft
    with fit have "fits t l" by simp
    with chain_cons [OF linked, of t] SLeft ends show ?thesis
      by (simp add: s' otherPip_fits fits_def)
  next
    case SRight
    with fit have "fits t r" by simp
    with chain_snoc [OF linked, of t] SRight ends show ?thesis
      by (simp add: s' otherPip_fits fits_def)
  qed
  have old: "\<forall>p \<in> set (players s). distinct (hand p) \<and> (\<forall>u \<in> set (hand p). fst u \<le> snd u)"
    using wf by (simp add: wellFormed_def list_all_iff)
  with member have "distinct ?newHand \<and> (\<forall>u \<in> set ?newHand. fst u \<le> snd u)"
    by simp
  with old have hands:
    "list_all (\<lambda>p. distinct (hand p) \<and> list_all (\<lambda>t. fst t \<le> snd t) (hand p)) (players s')"
    unfolding s' by (auto simp: list_all_iff)
  have cur: "0 \<le> currentPlayerIndex s' \<and> currentPlayerIndex s' \<le> 3"
    unfolding s' using wf by (intro getNextPlayerIndex_range) (simp_all add: wellFormed_def)
  from pids board hands cur show ?thesis
    by (simp add: wellFormed_def)
qed

lemma handlePass_wellFormed:
  assumes "wellFormed s" and "handlePass p s = Inr s'"
  shows "wellFormed s'"
proof -
  from assms(2) obtain old where
    "s' = s\<lparr>currentPlayerIndex := getNextPlayerIndex (currentPlayerIndex s),
             logs := logs s @ [name p @ '' passes (Knock).''],
             passHistory := (passHistory s)(pid p \<mapsto> old @ missedEnds s)\<rparr>"
    by (auto simp: handlePass_def split: option.splits)
  then have same: "players s' = players s" "board s' = board s" "leftEnd s' = leftEnd s"
    "rightEnd s' = rightEnd s"
    "currentPlayerIndex s' = getNextPlayerIndex (currentPlayerIndex s)"
    by simp_all
  from assms(1) have "0 \<le> currentPlayerIndex s" "currentPlayerIndex s \<le> 3"
    by (simp_all add: wellFormed_def)
  from getNextPlayerIndex_range [OF this] same have "0 \<le> currentPlayerIndex s'"
    "currentPlayerIndex s' \<le> 3" by simp_all
  with assms(1) same show ?thesis
    by (simp add: wellFormed_frame [of s s'])
qed

lemma handleRoundEnd_shape:
  "\<exists>rec entry. handleRoundEnd rsn w s =
     s\<lparr>status := RoundOver, winner := Some rec, logs := logs s @ [entry]\<rparr>"
  unfolding handleRoundEnd_def Let_def by (intro exI) (rule refl)

lemma handleRoundEnd_wellFormed:
  assumes "wellFormed s"
  shows "wellFormed (handleRoundEnd rsn w s)"
proof -
  from handleRoundEnd_shape [of rsn w s] obtain rec entry where
    "handleRoundEnd rsn w s = s\<lparr>status := RoundOver, winner := Some rec, logs := logs s @ [entry]\<rparr>"
    by blast
  then have same: "players (handleRoundEnd rsn w s) = players s"
    "board (handleRoundEnd rsn w s) = board s"
    "leftEnd (handleRoundEnd rsn w s) = leftEnd s"
    "rightEnd (handleRoundEnd rsn w s) = rightEnd s"
    "currentPlayerIndex (handleRoundEnd rsn w s) = currentPlayerIndex s"
    by simp_all
  from assms have "0 \<le> currentPlayerIndex s" "currentPlayerIndex s \<le> 3"
    by (simp_all add: wellFormed_def)
  with same assms show ?thesis
    by (simp add: wellFormed_frame [of s "handleRoundEnd rsn w s"])
qed

lemma calculateBotMove_legal:
  assumes "calculateBotMove h le re ph nx = Some m"
  shows "m \<in> set (getValidMoves h le re)"
proof -
  let ?ms = "getValidMoves h le re"
  let ?scored = "map (\<lambda>m. (m, moveScore le re ph nx m)) ?ms"
  let ?sorted = "sort_key (\<lambda>sm. - snd sm) ?scored"
  show ?thesis
  proof (cases "length ?ms = 0 \<or> length ?ms = 1")
    case True
    with assms show ?thesis
      by (auto simp: calculateBotMove_def Let_def length_Suc_conv split: if_splits)
  next
    case False
    then have ne: "?sorted \<noteq> []" by (auto simp: sort_key_eq_Nil)
    then have "hd ?sorted \<in> set ?sorted" by (rule hd_in_set)
    also have "set ?sorted = set ?scored" by (rule set_sort)
    finally have "fst (hd ?sorted) \<in> fst ` set ?scored" by (rule imageI)
    then have "fst (hd ?sorted) \<in> set ?ms" by (simp add: image_image)
    moreover from assms False ne have "m = fst (hd ?sorted)"
      by (simp add: calculateBotMove_def Let_def hd_conv_nth)
    ultimately show ?thesis by simp
  qed
qed

lemma legal_fits:
  assumes "m \<in> set (getValidMoves h (Some l) (Some r))"
  shows "side m = SLeft \<longrightarrow> fits (tile m) l" and "side m = SRight \<longrightarrow> fits (tile m) r"
  using valid_move_fits [OF assms] by simp_all

lemma executeBotTurn_wellFormed:
  assumes "wellFormed s" and "executeBotTurn b s = Inr s'"
  shows "wellFormed s'"
proof (cases "calculateBotMove (hand b) (leftEnd s) (rightEnd s) (passHistory s)
                (getNextPlayerIndex (pid b))")
  case None
  with assms show ?thesis
    by (auto simp: executeBotTurn_def Let_def intro: handlePass_wellFormed)
next
  case (Some m)
  from wellFormed_ends [OF assms(1)] obtain l r where
    ends: "leftEnd s = Some l" "rightEnd s = Some r" by blast
  from calculateBotMove_legal [OF Some] ends
  have legal: "m \<in> set (getValidMoves (hand b) (Some l) (Some r))" by simp
  from assms(2) Some have "applyMove (pid b) (tile m) (side m) s = Inr s'"
    by (simp add: executeBotTurn_def Let_def)
  from applyMove_wellFormed [OF assms(1) ends legal_fits [OF legal] this] show ?thesis .
qed

lemma onUserTileClick_cases:
  assumes ends: "leftEnd s = Some l" "rightEnd s = Some r"
      and run: "onUserTileClick t choice s = Inr s'"
  shows "s' = s \<or> (fits t l \<and> applyMove 0 t SLeft s = Inr s')
         \<or> (fits t r \<and> applyMove 0 t SRight s = Inr s')"
proof (cases "currentPlayerIndex s \<noteq> 0 \<or> status s \<noteq> Playing")
  case True
  with run show ?thesis by (simp add: onUserTileClick_def)
next
  case False
  then have go: "onUserTileClick t choice s =
      (let validMoves = entries l r t
       in if length validMoves = 0 then Inr s
          else if length validMoves = 1 then applyMove 0 t (side (validMoves ! 0)) s
          else if leftEnd s = rightEnd s then applyMove 0 t SLeft s
          else applyMove 0 t (if choice then SLeft else SRight) s)"
    by (simp add: onUserTileClick_def ends getValidMoves_ends)
  show ?thesis
  proof (cases "fits t l")
    case l: True
    show ?thesis
    proof (cases "fits t r")
      case True
      with l run go show ?thesis
        by (cases choice) (simp_all add: entries_def split: if_splits)
    next
      case False
      with l run go show ?thesis by (simp add: entries_def)
    qed
  next
    case l: False
    show ?thesis
    proof (cases "fits t r")
      case True
      with l run go show ?thesis by (simp add: entries_def)
    next
      case False
      with l run go show ?thesis by (simp add: entries_def)
    qed
  qed
qed

lemma onUserTileClick_wellFormed:
  assumes "wellFormed s" and "onUserTileClick t choice s = Inr s'"
  shows "wellFormed s'"
proof -
  from wellFormed_ends [OF assms(1)] obtain l r where
    ends: "leftEnd s = Some l" "rightEnd s = Some r" by blast
  from onUserTileClick_cases [OF ends assms(2)]
  consider "s' = s" | "fits t l" "applyMove 0 t SLeft s = Inr s'"
    | "fits t r" "applyMove 0 t SRight s = Inr s'"
    by blast
  then show ?thesis
  proof cases
    case 1
    with assms(1) show ?thesis by simp
  next
    case 2
    then show ?thesis
      using applyMove_wellFormed [OF assms(1) ends, of SLeft t 0 s'] by simp
  next
    case 3
    then show ?thesis
      using applyMove_wellFormed [OF assms(1) ends, of SRight t 0 s'] by simp
  qed
qed

lemma turn_wellFormed:
  assumes "wellFormed s" and "turn input s = Inr s'"
  shows "wellFormed s'"
proof -
  from assms(2) obtain eff where eff: "gameLoop s = Inr eff" "runEffect eff input s = Inr s'"
    by (auto simp: turn_def split: sum.splits)
  show ?thesis
  proof (cases eff)
    case NoEffect
    with eff assms(1) show ?thesis by (simp add: runEffect_def)
  next
    case (RoundEnd rsn w)
    with eff assms(1) show ?thesis
      by (auto simp: runEffect_def intro: handleRoundEnd_wellFormed)
  next
    case (BotTurn b)
    with eff assms(1) show ?thesis
      by (auto simp: runEffect_def intro: executeBotTurn_wellFormed)
  next
    case (AutoPass p)
    with eff assms(1) show ?thesis
      by (auto simp: runEffect_def intro: handlePass_wellFormed)
  next
    case AwaitUser
    with eff assms(1) show ?thesis
      by (auto simp: runEffect_def split: option.splits intro: onUserTileClick_wellFormed)
  qed
qed

lemma reachable_wellFormed: "reachable s \<Longrightarrow> wellFormed s"
  by (induction rule: reachable.induct) (auto intro: wellFormed_startGame turn_wellFormed)

lemma ordered_tiles_equal:
  "areTilesEqual u t \<Longrightarrow> fst u \<le> snd u \<Longrightarrow> fst t \<le> snd t \<Longrightarrow> u = t"
  by (auto simp: areTilesEqual_def prod_eq_iff)

lemma wellFormed_active:
  assumes "wellFormed s" and "nthPlayer (players s) (currentPlayerIndex s) = Some p"
  shows "p \<in> set (players s)" and "pid p = currentPlayerIndex s"
proof -
  from nthPlayer_range [OF assms(2)] have i: "0 \<le> currentPlayerIndex s"
    "nat (currentPlayerIndex s) < length (players s)" "p = players s ! nat (currentPlayerIndex s)"
    by simp_all
  then show "p \<in> set (players s)" by simp
  from assms(1) have pids: "map pid (players s) = [0, 1, 2, 3]"
    by (simp add: wellFormed_def)
  then have "length (map pid (players s)) = 4" by simp
  then have "length (players s) = 4" by simp
  with i have "nat (currentPlayerIndex s) < 4" by simp
  then have "[0, 1, 2, 3] ! nat (currentPlayerIndex s) = currentPlayerIndex s"
    using i(1) by (auto simp: nth_Cons' less_Suc_eq eval_nat_numeral)
  moreover have "pid p = map pid (players s) ! nat (currentPlayerIndex s)"
    using i by simp
  ultimately show "pid p = currentPlayerIndex s" using pids by simp
qed

text \<open>
  C1. In every reachable playing state, when the active seat's player plays a legal
  move \<open>m\<close> (an entry of \<open>getValidMoves\<close> on the hand and the open ends), \<open>applyMove\<close>
  succeeds; the acting player's hand loses exactly that tile and every other player is
  unchanged; the tile is prepended to the board on the left and appended on the right;
  the end on the played side becomes the tile's other pip (a different value unless
  the tile is a double) and the other end stays; the boneyard is unchanged; and the
  board is connected between the new ends.
\<close>

theorem applyMove_play:
  assumes reach: "reachable s"
      and playing: "status s = Playing"
      and active: "nthPlayer (players s) (currentPlayerIndex s) = Some p"
      and legal: "m \<in> set (getValidMoves (hand p) (leftEnd s) (rightEnd s))"
  shows "\<exists>l r s'. leftEnd s = Some l \<and> rightEnd s = Some r \<and>
           applyMove (currentPlayerIndex s) (tile m) (side m) s = Inr s' \<and>
           players s' =
             map (\<lambda>q. if q = p then p\<lparr>hand := remove1 (tile m) (hand p)\<rparr> else q) (players s) \<and>
           tile m \<in> set (hand p) \<and>
           length (remove1 (tile m) (hand p)) + 1 = length (hand p) \<and>
           board s' = (case side m of SLeft \<Rightarrow> tile m # board s | SRight \<Rightarrow> board s @ [tile m]) \<and>
           length (board s') = length (board s) + 1 \<and>
           leftEnd s' =
             (case side m of
                SLeft \<Rightarrow> Some (if fst (tile m) = l then snd (tile m) else fst (tile m))
              | SRight \<Rightarrow> Some l) \<and>
           rightEnd s' =
             (case side m of
                SLeft \<Rightarrow> Some r
              | SRight \<Rightarrow> Some (if fst (tile m) = r then snd (tile m) else fst (tile m))) \<and>
           (fst (tile m) \<noteq> snd (tile m) \<longrightarrow>
              (case side m of SLeft \<Rightarrow> leftEnd s' \<noteq> Some l | SRight \<Rightarrow> rightEnd s' \<noteq> Some r)) \<and>
           boneyard s' = boneyard s \<and>
           status s' = Playing \<and>
           (\<exists>l' r'. leftEnd s' = Some l' \<and> rightEnd s' = Some r' \<and> chain l' (board s') r')"
proof -
  from reachable_wellFormed [OF reach] have wf: "wellFormed s" .
  from wellFormed_ends [OF wf] obtain l r where
    ends: "leftEnd s = Some l" "rightEnd s = Some r" and linked: "chain l (board s) r"
    by blast
  from wf have seats: "distinct (map pid (players s))"
    by (simp add: wellFormed_def)
  note actor = wellFormed_active [OF wf active]
  from wf actor(1) have hand: "distinct (hand p)" "\<forall>u \<in> set (hand p). fst u \<le> snd u"
    by (simp_all add: wellFormed_def list_all_iff)
  from legal ends have "tile m \<in> set (hand p)"
    using valid_move_fits [of m "hand p" l r] by simp
  with hand(2) have tiles: "\<forall>u \<in> set (hand p). areTilesEqual u (tile m) \<longrightarrow> u = tile m"
    by (auto intro: ordered_tiles_equal)
  from legal_play_effect [OF playing ends seats actor legal hand(1) tiles linked] ends
  show ?thesis by blast
qed

lemma reachable_opening: "reachable openingState"
proof (rule reachable.start [of generateDeck])
  show "distinct generateDeck" unfolding generateDeck_tiles by simp
  show "set generateDeck = set generateDeck" ..
  show "startGame generateDeck = Inr openingState" by (rule startGame_unshuffled)
qed

theorem applyMove_play_witness:
  "reachable openingState \<and> status openingState = Playing \<and>
   \<lparr>tile = (3, 4), side = SLeft\<rparr> \<in>
     set (getValidMoves (hand (players openingState ! 2)) (Some 4) (Some 4)) \<and>
   map_sum id (\<lambda>s. (map hand (players s), board s, leftEnd s, rightEnd s, boneyard s))
     (applyMove 2 (3, 4) SLeft openingState) =
   Inr (map hand ((players openingState)
          [2 := (players openingState ! 2)
                  \<lparr>hand := [(2, 3), (2, 4), (2, 5), (2, 6), (2, 7), (2, 8), (2, 9), (3, 3), (3, 5)]\<rparr>]),
        [(3, 4), (4, 4)], Some 3, Some 4, boneyard openingState) \<and>
   chain 3 [(3, 4), (4, 4)] 4"
proof -
  let ?p = "players openingState ! 2"
  let ?m = "\<lparr>tile = (3, 4), side = SLeft\<rparr>"
  have playing: "status openingState = Playing" by (simp add: openingState_def)
  have active: "nthPlayer (players openingState) (currentPlayerIndex openingState) = Some ?p"
    by (simp add: openingState_def nthPlayer_def)
  have legal: "?m \<in> set (getValidMoves (hand ?p) (leftEnd openingState) (rightEnd openingState))"
    by (simp add: openingState_def getValidMoves_def pushMoves_def)
  from applyMove_play [OF reachable_opening playing active legal]
  obtain l r s' where s': "leftEnd openingState = Some l" "rightEnd openingState = Some r"
    "applyMove (currentPlayerIndex openingState) (tile ?m) (side ?m) openingState = Inr s'"
    "players s' = map (\<lambda>q. if q = ?p then ?p\<lparr>hand := remove1 (tile ?m) (hand ?p)\<rparr> else q)
       (players openingState)"
    "board s' = (case side ?m of SLeft \<Rightarrow> tile ?m # board openingState
                 | SRight \<Rightarrow> board openingState @ [tile ?m])"
    "leftEnd s' = (case side ?m of
                SLeft \<Rightarrow> Some (if fst (tile ?m) = l then snd (tile ?m) else fst (tile ?m))
              | SRight \<Rightarrow> Some l)"
    "rightEnd s' = (case side ?m of
                SLeft \<Rightarrow> Some r
              | SRight \<Rightarrow> Some (if fst (tile ?m) = r then snd (tile ?m) else fst (tile ?m)))"
    "boneyard s' = boneyard openingState"
    "\<exists>l' r'. leftEnd s' = Some l' \<and> rightEnd s' = Some r' \<and> chain l' (board s') r'"
    by blast
  from s'(1,2) have lr: "l = 4" "r = 4" by (simp_all add: openingState_def)
  from s'(3) have run: "applyMove 2 (3, 4) SLeft openingState = Inr s'"
    by (simp add: openingState_def)
  from s'(4) have ps: "map hand (players s') =
      map hand ((players openingState)
          [2 := (players openingState ! 2)
                  \<lparr>hand := [(2, 3), (2, 4), (2, 5), (2, 6), (2, 7), (2, 8), (2, 9), (3, 3), (3, 5)]\<rparr>])"
    by (simp add: openingState_def)
  from s'(5,6,7) lr have b: "board s' = [(3, 4), (4, 4)]" "leftEnd s' = Some 3"
    "rightEnd s' = Some 4"
    by (simp_all add: openingState_def)
  from s'(9) b have c: "chain 3 [(3, 4), (4, 4)] 4" by simp
  from reachable_opening playing legal run ps b s'(8) c show ?thesis
    by (simp add: openingState_def)
qed

section \<open>Passing in a reachable state\<close>

lemma applyMove_passHistory:
  "applyMove seat t sd s = Inr s' \<Longrightarrow> passHistory s' = passHistory s"
  by (auto simp: applyMove_def Let_def split: option.splits)

lemma handlePass_keys:
  "handlePass p s = Inr s' \<Longrightarrow> passHistory s k \<noteq> None \<Longrightarrow> passHistory s' k \<noteq> None"
  by (auto simp: handlePass_def split: option.splits)

lemma handleRoundEnd_passHistory:
  "passHistory (handleRoundEnd rsn w s) = passHistory s"
  using handleRoundEnd_shape [of rsn w s] by auto

lemma turn_keys:
  assumes "turn input s = Inr s'" and "passHistory s k \<noteq> None"
  shows "passHistory s' k \<noteq> None"
proof -
  from assms(1) obtain eff where eff: "gameLoop s = Inr eff" "runEffect eff input s = Inr s'"
    by (auto simp: turn_def split: sum.splits)
  show ?thesis
  proof (cases eff)
    case NoEffect
    with eff assms(2) show ?thesis by (simp add: runEffect_def)
  next
    case (RoundEnd rsn w)
    with eff assms(2) show ?thesis
      by (auto simp: runEffect_def handleRoundEnd_passHistory)
  next
    case (BotTurn b)
    with eff have "executeBotTurn b s = Inr s'" by (simp add: runEffect_def)
    with assms(2) show ?thesis
      by (auto simp: executeBotTurn_def Let_def split: option.splits
          dest: applyMove_passHistory handlePass_keys)
  next
    case (AutoPass p)
    with eff assms(2) show ?thesis
      by (auto simp: runEffect_def dest: handlePass_keys)
  next
    case AwaitUser
    show ?thesis
    proof (cases input)
      case None
      with AwaitUser eff assms(2) show ?thesis by (simp add: runEffect_def)
    next
      case (Some click)
      with AwaitUser eff have "onUserTileClick (fst click) (snd click) s = Inr s'"
        by (simp add: runEffect_def split: prod.splits)
      then have "s' = s \<or> (\<exists>sd. applyMove 0 (fst click) sd s = Inr s')"
        by (auto simp: onUserTileClick_def Let_def split: if_splits)
      with assms(2) show ?thesis
        by (auto dest: applyMove_passHistory)
    qed
  qed
qed

lemma startGame_keys:
  "startGame deck = Inr s \<Longrightarrow> k \<in> {0, 1, 2, 3} \<Longrightarrow> passHistory s k \<noteq> None"
  by (auto simp: startGame_def Let_def split: option.splits prod.splits)

lemma reachable_keys:
  assumes "reachable s" and "k \<in> {0, 1, 2, 3}"
  shows "passHistory s k \<noteq> None"
  using assms
proof (induction rule: reachable.induct)
  case (start deck s)
  from startGame_keys [OF start(3) start(4)] show ?case .
next
  case (step s input s')
  from turn_keys [OF step(2) step(4) [OF step(5)]] show ?case .
qed

text \<open>
  In a reachable state a pass by any of the players succeeds: the pass history has the
  player's key and the turn pointer is a seat.
\<close>

lemma reachable_pass_ready:
  assumes "reachable s" and "p \<in> set (players s)"
  shows "\<exists>old. passHistory s (pid p) = Some old" and "0 \<le> currentPlayerIndex s"
proof -
  from reachable_wellFormed [OF assms(1)] have wf: "wellFormed s" .
  then have "map pid (players s) = [0, 1, 2, 3]" by (simp add: wellFormed_def)
  moreover from assms(2) have "pid p \<in> set (map pid (players s))" by simp
  ultimately have "pid p \<in> {0, 1, 2, 3}" by auto
  from reachable_keys [OF assms(1) this] show "\<exists>old. passHistory s (pid p) = Some old"
    by auto
  from wf show "0 \<le> currentPlayerIndex s" by (simp add: wellFormed_def)
qed

section \<open>A whole round from the unshuffled deck\<close>

lemma legal_in_hand: "m \<in> set (getValidMoves h le re) \<Longrightarrow> tile m \<in> set h"
  by (cases le; cases re) (auto simp: getValidMoves_def foldl_pushMoves entries_def split: if_splits)

lemma firstClick_in_hand:
  assumes "wellFormed s" and "firstClick s = Some click"
  shows "list_ex (\<lambda>p. pid p = 0 \<and> fst click \<in> set (hand p)) (players s)"
proof -
  from assms(2) obtain user m ms where
    u: "nthPlayer (players s) 0 = Some user" and
    m: "getValidMoves (hand user) (leftEnd s) (rightEnd s) = m # ms" and
    c: "click = (tile m, side m = SLeft)"
    by (auto simp: firstClick_def split: option.splits list.splits)
  from nthPlayer_range [OF u] have user: "user \<in> set (players s)" "user = players s ! 0"
    by simp_all
  from assms(1) have "map pid (players s) = [0, 1, 2, 3]" by (simp add: wellFormed_def)
  then have "map pid (players s) ! 0 = 0" by simp
  with user nthPlayer_range [OF u] have "pid user = 0" by simp
  moreover from m have "tile m \<in> set (hand user)"
    by (intro legal_in_hand [of m _ "leftEnd s" "rightEnd s"]) simp
  ultimately show ?thesis using user(1) c by (auto simp: list_ex_iff)
qed

lemma autoPlay_reachable:
  "reachable s \<Longrightarrow> autoPlay n s = Inr s' \<Longrightarrow> reachable s'"
proof (induction n arbitrary: s)
  case 0
  then show ?case by simp
next
  case (Suc n)
  from Suc.prems(2) obtain s1 where
    one: "turn (firstClick s) s = Inr s1" and rest: "autoPlay n s1 = Inr s'"
    by (auto split: sum.splits)
  have "case firstClick s of None \<Rightarrow> True
        | Some click \<Rightarrow> list_ex (\<lambda>p. pid p = 0 \<and> fst click \<in> set (hand p)) (players s)"
    using firstClick_in_hand [OF reachable_wellFormed [OF Suc.prems(1)]]
    by (auto split: option.splits)
  from reachable.step [OF Suc.prems(1) one this] have "reachable s1" .
  from Suc.IH [OF this rest] show ?case .
qed

text \<open>
  The round played from the unshuffled deck: after 43 turns the user has just played
  the last tile, [0|9]; the state is still playing. Nobody holds a 9 or a 0, so the
  loop, now at seat 3, ends the round with reason tranque, not domino.
\<close>

lemma unshuffled_round:
  "map_sum id (\<lambda>s. (status s, map hand (players s), leftEnd s, rightEnd s, currentPlayerIndex s))
     (autoPlay 42 openingState) =
   Inr (Playing, [[(0, 9)], [(1, 5)], [(2, 4), (2, 5), (2, 6)],
                  [(3, 6), (3, 7), (3, 8), (4, 5), (4, 6)]], Some 0, Some 0, 0)"
  "map_sum id (\<lambda>s. (status s, map hand (players s), leftEnd s, rightEnd s, currentPlayerIndex s))
     (autoPlay 43 openingState) =
   Inr (Playing, [[], [(1, 5)], [(2, 4), (2, 5), (2, 6)],
                  [(3, 6), (3, 7), (3, 8), (4, 5), (4, 6)]], Some 9, Some 0, 3)"
  "map_sum id (\<lambda>s. (status s, winner s)) (autoPlay 44 openingState) =
   Inr (RoundOver, Some \<lparr>wteam = 0, reason = Tranque, points = 55\<rparr>)"
  by code_simp+

lemma autoPlay_add:
  "autoPlay (n + k) s = (case autoPlay n s of Inl e \<Rightarrow> Inl e | Inr s1 \<Rightarrow> autoPlay k s1)"
  by (induction n arbitrary: s) (auto split: sum.splits)

lemma domino_missed_in_play:
  "\<exists>s s'. reachable s \<and> autoPlay 43 openingState = Inr s \<and>
     status s = Playing \<and> hand (players s ! 0) = [] \<and>
     turn None s = Inr s' \<and> status s' = RoundOver \<and>
     winner s' = Some \<lparr>wteam = 0, reason = Tranque, points = 55\<rparr>"
proof -
  from unshuffled_round(2) obtain s where
    s: "autoPlay 43 openingState = Inr s" "status s = Playing"
    "map hand (players s) = [[], [(1, 5)], [(2, 4), (2, 5), (2, 6)],
                  [(3, 6), (3, 7), (3, 8), (4, 5), (4, 6)]]"
    by (cases "autoPlay 43 openingState") auto
  from autoPlay_reachable [OF reachable_opening s(1)] have reach: "reachable s" .
  from s(3) have "length (map hand (players s)) = 4" by simp
  then have len: "length (players s) = 4" by simp
  then have "map hand (players s) ! 0 = hand (players s ! 0)" by simp
  with s(3) have empty: "hand (players s ! 0) = []" by simp
  with len have click: "firstClick s = None"
    by (simp add: firstClick_def nthPlayer_def getValidMoves_def split: option.splits)
  have "autoPlay 44 openingState = autoPlay (43 + 1) openingState" by simp
  also have "\<dots> = autoPlay 1 s"
    unfolding autoPlay_add by (simp add: s(1))
  also have "\<dots> = (case turn None s of Inl e \<Rightarrow> Inl e | Inr s' \<Rightarrow> Inr s')"
    by (simp add: click split: sum.splits)
  finally have "map_sum id (\<lambda>s. (status s, winner s))
      (case turn None s of Inl e \<Rightarrow> Inl e | Inr s' \<Rightarrow> Inr s') =
      Inr (RoundOver, Some \<lparr>wteam = 0, reason = Tranque, points = 55\<rparr>)"
    using unshuffled_round(3) by simp
  then obtain s' where "turn None s = Inr s'" "status s' = RoundOver"
    "winner s' = Some \<lparr>wteam = 0, reason = Tranque, points = 55\<rparr>"
    by (cases "turn None s") auto
  with reach s(1,2) empty show ?thesis by blast
qed

text \<open>
  The round played from the deck rotated by ten tiles: Bot 1 plays its last tile, the
  round goes on, and three turns later the turn is back at Bot 1 with the board locked
  on 8 and 8. The loop ends the round with reason domino.
\<close>

lemma rotated_round:
  "map_sum id
     (\<lambda>s. (status s, map hand (players s), leftEnd s, rightEnd s, currentPlayerIndex s,
           length (board s), anyValidMove s, gameLoop s))
     (case startGame (rotate 10 generateDeck) of Inl e \<Rightarrow> Inl e | Inr s \<Rightarrow> autoPlay 41 s) =
   Inr (Playing, [[(2, 2)], [], [], [(5, 6), (5, 7), (6, 6), (6, 7)]], Some 8, Some 8, 1,
        35, False, Inr (RoundEnd Domino 1))"
  by code_simp

lemma locked_domino_in_play:
  "\<exists>s. reachable s \<and> status s = Playing \<and> board s \<noteq> [] \<and> \<not> anyValidMove s \<and>
       gameLoop s = Inr (RoundEnd Domino 1)"
proof -
  from rotated_round obtain s0 s where
    start: "startGame (rotate 10 generateDeck) = Inr s0" and
    run: "autoPlay 41 s0 = Inr s" and
    s: "status s = Playing" "length (board s) = 35" "\<not> anyValidMove s"
       "gameLoop s = Inr (RoundEnd Domino 1)"
    by (cases "startGame (rotate 10 generateDeck)"; cases "autoPlay 41 (projr (startGame (rotate 10 generateDeck)))")
       auto
  have "distinct (rotate 10 generateDeck)" unfolding generateDeck_tiles by simp
  moreover have "set (rotate 10 generateDeck) = set generateDeck" by simp
  ultimately have "reachable s0" using start by (rule reachable.start)
  from autoPlay_reachable [OF this run] have "reachable s" .
  moreover from s(2) have "board s \<noteq> []" by auto
  ultimately show ?thesis using s by blast
qed

section \<open>Teams and hands in a reachable state\<close>

text \<open>
  A turn leaves the list of players as it is, or gives the players of one id a hand
  filtered from the hand of a player of the list.
\<close>

lemma applyMove_players:
  assumes "applyMove seat t sd s = Inr s'"
  shows "\<exists>player. player \<in> set (players s) \<and>
           players s' = map (\<lambda>p. if pid p = seat
                                   then p\<lparr>hand := filter (\<lambda>u. \<not> areTilesEqual u t) (hand player)\<rparr>
                                   else p) (players s)"
proof -
  from assms obtain player where
    found: "find (\<lambda>p. pid p = seat) (players s) = Some player"
    by (auto simp: applyMove_def split: option.splits)
  then have "player \<in> set (players s)" by (auto simp: find_Some_iff)
  moreover from assms found have
    "players s' = map (\<lambda>p. if pid p = seat
                             then p\<lparr>hand := filter (\<lambda>u. \<not> areTilesEqual u t) (hand player)\<rparr>
                             else p) (players s)"
    by (auto simp: applyMove_def Let_def)
  ultimately show ?thesis by blast
qed

lemma handlePass_players: "handlePass p s = Inr s' \<Longrightarrow> players s' = players s"
  by (auto simp: handlePass_def split: option.splits)

lemma handleRoundEnd_players: "players (handleRoundEnd rsn w s) = players s"
  using handleRoundEnd_shape [of rsn w s] by auto

lemma turn_players:
  assumes "turn input s = Inr s'"
  shows "players s' = players s \<or>
         (\<exists>seat t player. player \<in> set (players s) \<and>
            players s' = map (\<lambda>p. if pid p = seat
                                    then p\<lparr>hand := filter (\<lambda>u. \<not> areTilesEqual u t) (hand player)\<rparr>
                                    else p) (players s))"
proof -
  from assms obtain eff where eff: "gameLoop s = Inr eff" "runEffect eff input s = Inr s'"
    by (auto simp: turn_def split: sum.splits)
  show ?thesis
  proof (cases eff)
    case NoEffect
    with eff show ?thesis by (simp add: runEffect_def)
  next
    case (RoundEnd rsn w)
    with eff show ?thesis by (auto simp: runEffect_def handleRoundEnd_players)
  next
    case (BotTurn b)
    with eff have "executeBotTurn b s = Inr s'" by (simp add: runEffect_def)
    then have "handlePass b s = Inr s' \<or> (\<exists>t sd. applyMove (pid b) t sd s = Inr s')"
    proof (cases "calculateBotMove (hand b) (leftEnd s) (rightEnd s) (passHistory s)
                   (getNextPlayerIndex (pid b))")
      case None
      with \<open>executeBotTurn b s = Inr s'\<close> show ?thesis
        by (simp add: executeBotTurn_def Let_def)
    next
      case (Some m)
      with \<open>executeBotTurn b s = Inr s'\<close>
      have "applyMove (pid b) (tile m) (side m) s = Inr s'"
        by (simp add: executeBotTurn_def Let_def)
      then show ?thesis by blast
    qed
    then show ?thesis
      using handlePass_players applyMove_players by blast
  next
    case (AutoPass p)
    with eff show ?thesis by (auto simp: runEffect_def dest: handlePass_players)
  next
    case AwaitUser
    show ?thesis
    proof (cases input)
      case None
      with AwaitUser eff show ?thesis by (simp add: runEffect_def)
    next
      case (Some click)
      with AwaitUser eff have "onUserTileClick (fst click) (snd click) s = Inr s'"
        by (simp add: runEffect_def split: prod.splits)
      then have "s' = s \<or> (\<exists>sd. applyMove 0 (fst click) sd s = Inr s')"
        by (auto simp: onUserTileClick_def Let_def split: if_splits)
      then show ?thesis
        using applyMove_players by blast
    qed
  qed
qed

lemma startGame_players:
  assumes "startGame deck = Inr s"
  shows "\<exists>i t. i < 4 \<and>
           players s = (dealPlayers deck)
             [i := (dealPlayers deck ! i)
                \<lparr>hand := filter (\<lambda>u. \<not> areTilesEqual u t) (hand (dealPlayers deck ! i))\<rparr>]"
proof -
  obtain i st where ds: "determineStarter (dealPlayers deck) (drop 40 deck) = (i, st)"
    by (cases "determineStarter (dealPlayers deck) (drop 40 deck)")
  from assms ds obtain starter where st: "nthPlayer (dealPlayers deck) i = Some starter"
    by (auto simp: startGame_def Let_def split: option.splits)
  from nthPlayer_range [OF st] have i: "nat i < length (dealPlayers deck)"
    "starter = dealPlayers deck ! nat i" by simp_all
  have "length (dealPlayers deck) = 4" by (simp add: dealPlayers_def)
  with i have "nat i < 4" by simp
  moreover from assms ds st i(2) have
    "players s = (dealPlayers deck)
       [nat i := (dealPlayers deck ! nat i)
          \<lparr>hand := filter (\<lambda>u. \<not> areTilesEqual u st) (hand (dealPlayers deck ! nat i))\<rparr>]"
    by (auto simp: startGame_def Let_def)
  ultimately show ?thesis by blast
qed

text \<open>The teams are 0, 1, 0, 1 by seat in every reachable state.\<close>

lemma reachable_teams: "reachable s \<Longrightarrow> map team (players s) = [0, 1, 0, 1]"
proof (induction rule: reachable.induct)
  case (start deck s)
  from startGame_players [OF start(3)] obtain i t where i: "i < 4"
    "players s = (dealPlayers deck)
             [i := (dealPlayers deck ! i)
                \<lparr>hand := filter (\<lambda>u. \<not> areTilesEqual u t) (hand (dealPlayers deck ! i))\<rparr>]"
    by blast
  have "map team (players s) = (map team (dealPlayers deck))[i := team (dealPlayers deck ! i)]"
    unfolding i(2) by (simp add: map_update)
  also have "\<dots> = map team (dealPlayers deck)"
  proof -
    have "length (dealPlayers deck) = 4" by (simp add: dealPlayers_def)
    with i(1) show ?thesis by (simp add: list_update_same_conv)
  qed
  finally show ?case by (simp add: dealPlayers_def)
next
  case (step s input s')
  from turn_players [OF step(2)] have "map team (players s') = map team (players s)"
    by (auto simp: comp_def intro: map_cong)
  with step.IH show ?case by simp
qed

lemma reachable_team01:
  "reachable s \<Longrightarrow> \<forall>p \<in> set (players s). team p = 0 \<or> team p = 1"
proof
  fix p assume "reachable s" "p \<in> set (players s)"
  then have "team p \<in> set (map team (players s))" by simp
  with reachable_teams [OF \<open>reachable s\<close>] show "team p = 0 \<or> team p = 1" by auto
qed

text \<open>
  Every hand of a reachable state holds at most ten tiles of the deck, so its pip
  total is at most 180, below the 1000 the lock scan starts from.
\<close>

lemma reachable_hands:
  "reachable s \<Longrightarrow>
   \<forall>p \<in> set (players s). length (hand p) \<le> 10 \<and> set (hand p) \<subseteq> set generateDeck"
proof (induction rule: reachable.induct)
  case (start deck s)
  from startGame_players [OF start(3)] obtain i t where i: "i < 4"
    "players s = (dealPlayers deck)
             [i := (dealPlayers deck ! i)
                \<lparr>hand := filter (\<lambda>u. \<not> areTilesEqual u t) (hand (dealPlayers deck ! i))\<rparr>]"
    by blast
  have dealt: "\<forall>p \<in> set (dealPlayers deck). length (hand p) \<le> 10 \<and> set (hand p) \<subseteq> set deck"
    by (auto simp: dealPlayers_def dest: in_set_takeD in_set_dropD)
  have "length (dealPlayers deck) = 4" by (simp add: dealPlayers_def)
  with i(1) have "dealPlayers deck ! i \<in> set (dealPlayers deck)"
    by (intro nth_mem) simp
  with dealt have starter:
    "length (filter (\<lambda>u. \<not> areTilesEqual u t) (hand (dealPlayers deck ! i))) \<le> 10"
    "set (filter (\<lambda>u. \<not> areTilesEqual u t) (hand (dealPlayers deck ! i))) \<subseteq> set deck"
    by (auto intro: le_trans [OF length_filter_le])
  show ?case
  proof
    fix p assume "p \<in> set (players s)"
    then have "p = (dealPlayers deck ! i)
                \<lparr>hand := filter (\<lambda>u. \<not> areTilesEqual u t) (hand (dealPlayers deck ! i))\<rparr>
               \<or> p \<in> set (dealPlayers deck)"
      unfolding i(2) using set_update_subset_insert by fastforce
    with dealt starter start(2)
    show "length (hand p) \<le> 10 \<and> set (hand p) \<subseteq> set generateDeck"
      by auto
  qed
next
  case (step s input s')
  show ?case
  proof
    fix p assume p: "p \<in> set (players s')"
    from turn_players [OF step(2)]
    consider "players s' = players s"
      | seat t player where "player \<in> set (players s)"
          "players s' = map (\<lambda>p. if pid p = seat
                                   then p\<lparr>hand := filter (\<lambda>u. \<not> areTilesEqual u t) (hand player)\<rparr>
                                   else p) (players s)"
      by blast
    then show "length (hand p) \<le> 10 \<and> set (hand p) \<subseteq> set generateDeck"
    proof cases
      case 1
      with p step.IH show ?thesis by simp
    next
      case 2
      from 2(1) step.IH have
        "length (filter (\<lambda>u. \<not> areTilesEqual u t) (hand player)) \<le> 10"
        "set (filter (\<lambda>u. \<not> areTilesEqual u t) (hand player)) \<subseteq> set generateDeck"
        by (auto intro: le_trans [OF length_filter_le])
      with p 2(2) step.IH show ?thesis by auto
    qed
  qed
qed

lemma deck_tile_sum: "t \<in> set generateDeck \<Longrightarrow> getTileSum t \<le> 18"
  by (auto simp: generateDeck_def getTileSum_def)

lemma hand_sum_bound:
  "set h \<subseteq> set generateDeck \<Longrightarrow> sum_list (map getTileSum h) \<le> 18 * int (length h)"
proof (induction h)
  case Nil
  then show ?case by simp
next
  case (Cons t h)
  then have "getTileSum t \<le> 18" "sum_list (map getTileSum h) \<le> 18 * int (length h)"
    by (simp_all add: deck_tile_sum)
  then show ?case by simp
qed

lemma reachable_pips_small:
  assumes "reachable s" and "p \<in> set (players s)"
  shows "(\<Sum>t\<leftarrow>hand p. getTileSum t) < 1000"
proof -
  from reachable_hands [OF assms(1)] assms(2)
  have "length (hand p) \<le> 10" "set (hand p) \<subseteq> set generateDeck" by simp_all
  with hand_sum_bound [of "hand p"] show ?thesis by simp
qed

section \<open>Order of the stored board in a reachable state\<close>

lemma handlePass_board: "handlePass p s = Inr s' \<Longrightarrow> board s' = board s"
  by (auto simp: handlePass_def split: option.splits)

lemma handleRoundEnd_board: "board (handleRoundEnd rsn w s) = board s"
  using handleRoundEnd_shape [of rsn w s] by auto

text \<open>A turn either is a call of \<open>applyMove\<close> or leaves the board as it is.\<close>

lemma turn_board:
  assumes "turn input s = Inr s'"
  shows "board s' = board s \<or> (\<exists>seat t sd. applyMove seat t sd s = Inr s')"
proof -
  from assms obtain eff where eff: "gameLoop s = Inr eff" "runEffect eff input s = Inr s'"
    by (auto simp: turn_def split: sum.splits)
  show ?thesis
  proof (cases eff)
    case NoEffect
    with eff show ?thesis by (simp add: runEffect_def)
  next
    case (RoundEnd rsn w)
    with eff show ?thesis by (auto simp: runEffect_def handleRoundEnd_board)
  next
    case (BotTurn b)
    with eff have run: "executeBotTurn b s = Inr s'" by (simp add: runEffect_def)
    show ?thesis
    proof (cases "calculateBotMove (hand b) (leftEnd s) (rightEnd s) (passHistory s)
                   (getNextPlayerIndex (pid b))")
      case None
      with run have "handlePass b s = Inr s'" by (simp add: executeBotTurn_def Let_def)
      from handlePass_board [OF this] show ?thesis by simp
    next
      case (Some m)
      with run have "applyMove (pid b) (tile m) (side m) s = Inr s'"
        by (simp add: executeBotTurn_def Let_def)
      then show ?thesis by blast
    qed
  next
    case (AutoPass p)
    with eff show ?thesis by (auto simp: runEffect_def dest: handlePass_board)
  next
    case AwaitUser
    show ?thesis
    proof (cases input)
      case None
      with AwaitUser eff show ?thesis by (simp add: runEffect_def)
    next
      case (Some click)
      with AwaitUser eff have "onUserTileClick (fst click) (snd click) s = Inr s'"
        by (simp add: runEffect_def split: prod.splits)
      then have "s' = s \<or> (\<exists>sd. applyMove 0 (fst click) sd s = Inr s')"
        by (auto simp: onUserTileClick_def Let_def split: if_splits)
      then show ?thesis by blast
    qed
  qed
qed

lemma startGame_board:
  "startGame deck = Inr s \<Longrightarrow>
   board s = [snd (determineStarter (dealPlayers deck) (drop 40 deck))]"
  by (auto simp: startGame_def Let_def split: option.splits prod.splits)

lemma playedSince_reachable: "playedSince s st ps \<Longrightarrow> reachable s"
  by (induction rule: playedSince.induct) (auto intro: reachable.intros)

lemma reachable_playedSince: "reachable s \<Longrightarrow> \<exists>st ps. playedSince s st ps"
proof (induction rule: reachable.induct)
  case (start deck s)
  from playedSince.begun [OF start] show ?case by blast
next
  case (step s input s')
  from step.IH obtain st ps where h: "playedSince s st ps" by blast
  show ?case
  proof (cases "\<exists>seat t sd. applyMove seat t sd s = Inr s'")
    case True
    then obtain seat t sd where "applyMove seat t sd s = Inr s'" by blast
    from playedSince.play [OF h step(2) step(3) this] show ?thesis by blast
  next
    case False
    then have "\<forall>seat t sd. applyMove seat t sd s \<noteq> Inr s'" by blast
    from playedSince.quiet [OF h step(2) step(3) this] show ?thesis by blast
  qed
qed

lemma playedSince_board:
  "playedSince s st ps \<Longrightarrow>
   board s = rev (map snd (filter (\<lambda>p. fst p = SLeft) ps)) @ [st] @
             map snd (filter (\<lambda>p. fst p = SRight) ps)"
proof (induction rule: playedSince.induct)
  case (begun deck s)
  from startGame_board [OF begun(3)] show ?case by simp
next
  case (play s st ps input s' seat t sd)
  from applyMove_board [OF play(4)] play.IH show ?case
    by (cases sd) simp_all
next
  case (quiet s st ps input s')
  from turn_board [OF quiet(2)] quiet(4) have "board s' = board s" by blast
  with quiet.IH show ?case by simp
qed

text \<open>
  C7, as the code has it: the stored board is in spatial order. Every reachable state
  is reached from a start tile by a list of plays, and the board of any state so
  reached is the tiles played on the left, latest first, then the start tile, then the
  tiles played on the right in the order played. When every play was on the right this
  is the play order.
\<close>

theorem board_spatial_order:
  "(reachable s \<longrightarrow> (\<exists>st ps. playedSince s st ps)) \<and>
   (playedSince s st ps \<longrightarrow>
      reachable s \<and>
      board s = rev (map snd (filter (\<lambda>p. fst p = SLeft) ps)) @ [st] @
                map snd (filter (\<lambda>p. fst p = SRight) ps) \<and>
      (list_all (\<lambda>p. fst p = SRight) ps \<longrightarrow> board s = st # map snd ps))"
proof (intro conjI impI)
  assume "reachable s"
  then show "\<exists>st ps. playedSince s st ps" by (rule reachable_playedSince)
next
  assume h: "playedSince s st ps"
  then show "reachable s" by (rule playedSince_reachable)
  from h show b: "board s = rev (map snd (filter (\<lambda>p. fst p = SLeft) ps)) @ [st] @
                map snd (filter (\<lambda>p. fst p = SRight) ps)"
    by (rule playedSince_board)
  assume r: "list_all (\<lambda>p. fst p = SRight) ps"
  then have "filter (\<lambda>p. fst p = SLeft) ps = []" "filter (\<lambda>p. fst p = SRight) ps = ps"
    by (auto simp: list_all_iff filter_empty_conv filter_id_conv)
  with b show "board s = st # map snd ps" by simp
qed

text \<open>The play a turn makes is determined by its result: the tile and the side.\<close>

lemma applyMove_log:
  "applyMove seat t sd s = Inr s' \<Longrightarrow>
   \<exists>who. logs s' = logs s @ [who @ '' plays '' @ showTile t @ '' on the '' @ showSide sd @ ''.'']"
  by (auto simp: applyMove_def Let_def split: option.splits)

lemma play_determined:
  assumes "applyMove seat t sd s = Inr s'" and "applyMove seat' t' sd' s = Inr s'"
  shows "t = t' \<and> sd = sd'"
proof -
  from applyMove_log [OF assms(1)] obtain who where
    one: "logs s' = logs s @ [who @ '' plays '' @ showTile t @ '' on the '' @ showSide sd @ ''.'']"
    by blast
  from applyMove_log [OF assms(2)] obtain who' where
    two: "logs s' = logs s @ [who' @ '' plays '' @ showTile t' @ '' on the '' @ showSide sd' @ ''.'']"
    by blast
  from one two have
    "who @ '' plays '' @ showTile t @ '' on the '' @ showSide sd @ ''.'' =
     who' @ '' plays '' @ showTile t' @ '' on the '' @ showSide sd' @ ''.''"
    by simp
  then have "rev (who @ '' plays '' @ showTile t @ '' on the '' @ showSide sd @ ''.'') =
             rev (who' @ '' plays '' @ showTile t' @ '' on the '' @ showSide sd' @ ''.'')"
    by (rule arg_cong)
  then have side: "sd = sd'"
    by (cases sd; cases sd') (simp_all add: showSide_def)
  from applyMove_board [OF assms(1)] applyMove_board [OF assms(2)] side
  have "t = t'" by (cases sd) simp_all
  with side show ?thesis by simp
qed

lemma playedSince_opening: "playedSince openingState (4, 4) []"
proof -
  have "distinct generateDeck" unfolding generateDeck_tiles by simp
  from playedSince.begun [OF this refl startGame_unshuffled] show ?thesis
    by (simp add: determineStarter_unshuffled)
qed

lemma opening_to_second: "applyMove 2 (3, 4) SLeft openingState = Inr secondState"
  by (simp add: secondState_def openingState_def applyMove_def areTilesEqual_def otherPip_def
      getNextPlayerIndex_def jsRem_def showTile_def showInt_def showNat.simps digitChar_def
      showSide_def)

lemma second_turn: "turn None secondState = applyMove 1 (1, 4) SRight secondState"
proof -
  let ?bot = "\<lparr>pid = 1, name = ''Bot 1 (Left)'', isBot = True,
      hand = [(1, 1), (1, 2), (1, 3), (1, 4), (1, 5), (1, 6), (1, 7), (1, 8), (1, 9), (2, 2)],
      team = 1\<rparr>"
  have loop: "gameLoop secondState = Inr (BotTurn ?bot)"
    by (simp add: gameLoop_def secondState_def openingState_def nthPlayer_def anyValidMove_def
        getValidMoves_def pushMoves_def)
  have ends: "leftEnd secondState = Some 3" "rightEnd secondState = Some 4"
    by (simp_all add: secondState_def openingState_def)
  have move: "calculateBotMove
      [(1, 1), (1, 2), (1, 3), (1, 4), (1, 5), (1, 6), (1, 7), (1, 8), (1, 9), (2, 2)]
      (Some 3) (Some 4) (passHistory secondState) (getNextPlayerIndex 1) =
      Some \<lparr>tile = (1, 4), side = SRight\<rparr>"
    by (simp add: calculateBotMove_def secondState_def openingState_def getValidMoves_def
        pushMoves_def moveScore_def newOpenEnd_def getTileSum_def isDouble_def
        getNextPlayerIndex_def jsRem_def)
  show ?thesis
    by (simp add: turn_def loop runEffect_def executeBotTurn_def ends move)
qed

theorem board_spatial_order_witness:
  "reachable openingState \<and> playedSince openingState (4, 4) [] \<and>
   board openingState = [(4, 4)] \<and>
   turn None openingState = Inr secondState \<and>
   playedSince secondState (4, 4) [(SLeft, (3, 4))] \<and>
   board secondState = [(3, 4), (4, 4)] \<and>
   (\<exists>s. turn None secondState = Inr s \<and>
        playedSince s (4, 4) [(SLeft, (3, 4)), (SRight, (1, 4))] \<and>
        board s = [(3, 4), (4, 4), (1, 4)])"
proof -
  note h0 = playedSince_opening
  from board_spatial_order [of openingState "(4, 4)" "[]", THEN conjunct2, THEN mp, OF h0]
  have r0: "reachable openingState" and b0: "board openingState = [(4, 4)]" by simp_all
  have t1: "turn None openingState = Inr secondState"
    by (simp add: opening_turn opening_to_second)
  from playedSince.play [OF h0 t1 _ opening_to_second]
  have h1: "playedSince secondState (4, 4) [(SLeft, (3, 4))]" by simp
  from board_spatial_order [of secondState "(4, 4)" "[(SLeft, (3, 4))]",
      THEN conjunct2, THEN mp, OF h1]
  have b1: "board secondState = [(3, 4), (4, 4)]" by simp
  have "1 \<in> set (map pid (players secondState))"
    by (simp add: secondState_def openingState_def)
  from applyMove_ok [OF this] obtain s where
    a2: "applyMove 1 (1, 4) SRight secondState = Inr s" by blast
  then have t2: "turn None secondState = Inr s" by (simp add: second_turn)
  from playedSince.play [OF h1 t2 _ a2]
  have h2: "playedSince s (4, 4) [(SLeft, (3, 4)), (SRight, (1, 4))]" by simp
  from board_spatial_order [of s "(4, 4)" "[(SLeft, (3, 4)), (SRight, (1, 4))]",
      THEN conjunct2, THEN mp, OF h2]
  have b2: "board s = [(3, 4), (4, 4), (1, 4)]" by simp
  from r0 h0 b0 t1 h1 b1 t2 h2 b2 show ?thesis by blast
qed

end
